theory Spec2Isabelle
  imports Complex_Main "HOL-Library.Multiset" "HOL-Library.Stream"
begin

section \<open>TetrisForge: the board engine and the join code\<close>

text \<open>
  A shallow embedding of \<^verbatim>\<open>tetris.py\<close>: the \<^verbatim>\<open>Shape\<close> and
  \<^verbatim>\<open>Board\<close> classes and the two join-code functions. Python integers are
  \<^typ>\<open>int\<close>, a raised exception is the left injection of a sum, an attribute that is
  assigned is a record field, and a \<^verbatim>\<open>for\<close> loop is a recursion over the list
  of its indices.
\<close>

subsection \<open>Exceptions\<close>

datatype error = IndexError | ValueError | StructError | BinasciiError

definition bind_err :: "error + 'a \<Rightarrow> ('a \<Rightarrow> error + 'b) \<Rightarrow> error + 'b" where
  "bind_err m f = (case m of Inl e \<Rightarrow> Inl e | Inr v \<Rightarrow> f v)"

text \<open>A \<^verbatim>\<open>for\<close> loop whose body may raise: the first exception ends the loop.\<close>

primrec for_each :: "('a \<Rightarrow> 's \<Rightarrow> error + 's) \<Rightarrow> 'a list \<Rightarrow> 's \<Rightarrow> error + 's" where
  "for_each f [] s = Inr s"
| "for_each f (v # vs) s = bind_err (f v s) (for_each f vs)"

text \<open>
  Python's \<^verbatim>\<open>xs[i]\<close> and \<^verbatim>\<open>xs[i] = v\<close>: a negative index counts from the
  end, an index outside \<open>[-len, len)\<close> raises IndexError.
\<close>

definition py_index :: "'a list \<Rightarrow> int \<Rightarrow> error + nat" where
  "py_index xs i =
     (if 0 \<le> i \<and> i < int (length xs) then Inr (nat i)
      else if - int (length xs) \<le> i \<and> i < 0 then Inr (nat (int (length xs) + i))
      else Inl IndexError)"

definition py_getitem :: "'a list \<Rightarrow> int \<Rightarrow> error + 'a" where
  "py_getitem xs i = bind_err (py_index xs i) (\<lambda>j. Inr (xs ! j))"

definition py_setitem :: "'a list \<Rightarrow> int \<Rightarrow> 'a \<Rightarrow> error + 'a list" where
  "py_setitem xs i v = bind_err (py_index xs i) (\<lambda>j. Inr (xs[j := v]))"

subsection \<open>Tetrominoe and Shape\<close>

text \<open>The constants \<^verbatim>\<open>NoShape = 0\<close> to \<^verbatim>\<open>MirroredLShape = 7\<close>, in that order.\<close>

datatype Tetrominoe =
  NoShape | ZShape | SShape | LineShape | TShape | SquareShape | LShape | MirroredLShape

text \<open>
  A \<^verbatim>\<open>Shape\<close> object: its list of four \<^verbatim>\<open>[x, y]\<close> pairs and its kind. The
  constructor builds four pairs and no method changes their number, so the objects of the
  program are the records with \<open>length (coords s) = 4\<close>.
\<close>

record Shape =
  coords :: "(int \<times> int) list"
  piece_shape :: Tetrominoe

fun coordsTable :: "Tetrominoe \<Rightarrow> (int \<times> int) list" where
  "coordsTable NoShape = [(0, 0), (0, 0), (0, 0), (0, 0)]"
| "coordsTable ZShape = [(0, -1), (0, 0), (-1, 0), (-1, 1)]"
| "coordsTable SShape = [(0, -1), (0, 0), (1, 0), (1, 1)]"
| "coordsTable LineShape = [(0, -1), (0, 0), (0, 1), (0, 2)]"
| "coordsTable TShape = [(-1, 0), (0, 0), (1, 0), (0, 1)]"
| "coordsTable SquareShape = [(0, 0), (1, 0), (0, 1), (1, 1)]"
| "coordsTable LShape = [(-1, -1), (0, -1), (0, 0), (0, 1)]"
| "coordsTable MirroredLShape = [(1, -1), (0, -1), (0, 0), (0, 1)]"

text \<open>\<^verbatim>\<open>set_shape\<close> copies the table row pair by pair into the object's own list.\<close>

definition set_shape :: "Tetrominoe \<Rightarrow> Shape \<Rightarrow> Shape" where
  "set_shape k s =
     s\<lparr>coords := map (\<lambda>i. (fst (coordsTable k ! i), snd (coordsTable k ! i))) [0..<4],
       piece_shape := k\<rparr>"

text \<open>\<^verbatim>\<open>Shape()\<close>: four zero pairs, then \<^verbatim>\<open>set_shape(NoShape)\<close>.\<close>

definition new_Shape :: Shape where
  "new_Shape = set_shape NoShape \<lparr>coords = replicate 4 (0, 0), piece_shape = NoShape\<rparr>"

definition shape_x :: "Shape \<Rightarrow> nat \<Rightarrow> int" where
  "shape_x s i = fst (coords s ! i)"

definition shape_y :: "Shape \<Rightarrow> nat \<Rightarrow> int" where
  "shape_y s i = snd (coords s ! i)"

definition set_x :: "nat \<Rightarrow> int \<Rightarrow> Shape \<Rightarrow> Shape" where
  "set_x i v s = s\<lparr>coords := (coords s)[i := (v, snd (coords s ! i))]\<rparr>"

definition set_y :: "nat \<Rightarrow> int \<Rightarrow> Shape \<Rightarrow> Shape" where
  "set_y i v s = s\<lparr>coords := (coords s)[i := (fst (coords s ! i), v)]\<rparr>"

definition min_y :: "Shape \<Rightarrow> int" where
  "min_y s = fold (\<lambda>i m. min m (snd (coords s ! i))) [0..<4] (snd (coords s ! 0))"

definition rotate_left :: "Shape \<Rightarrow> Shape" where
  "rotate_left s =
     (if piece_shape s = SquareShape then s
      else fold (\<lambda>i r. set_y i (- shape_x s i) (set_x i (shape_y s i) r)) [0..<4]
             (new_Shape\<lparr>piece_shape := piece_shape s\<rparr>))"

definition rotate_right :: "Shape \<Rightarrow> Shape" where
  "rotate_right s =
     (if piece_shape s = SquareShape then s
      else fold (\<lambda>i r. set_y i (shape_x s i) (set_x i (- shape_y s i) r)) [0..<4]
             (new_Shape\<lparr>piece_shape := piece_shape s\<rparr>))"

subsection \<open>The board object\<close>

definition board_width :: int where "board_width = 10"
definition BoardHeight :: int where "BoardHeight = 22"
definition FinalizeDelay :: int where "FinalizeDelay = 1000"
definition KeyRepeatDelay :: int where "KeyRepeatDelay = 150"

text \<open>
  The attributes of a \<^verbatim>\<open>Board\<close> that the engine reads or writes. \<open>Speed\<close> is the
  class attribute \<^verbatim>\<open>Board.Speed\<close>; it starts as the integer 300 and becomes a
  binary64 value at the first level-up, modelled here by the exact rational (dividing by
  4 is exact in binary64, and \<open>300 * (3/4) ^ k\<close> is representable for every \<open>k < 30\<close>).
  A timer is \<open>None\<close> when stopped and \<open>Some interval\<close> when running. \<open>statusbar\<close>
  is the list of strings emitted on \<^verbatim>\<open>msg2Statusbar\<close>, oldest first; \<open>repaints\<close>
  counts the calls of \<^verbatim>\<open>update()\<close>; \<open>rng\<close> is the source of the numbers that
  \<^verbatim>\<open>random.shuffle\<close> draws. The three pieces are three distinct objects
  throughout (they are exchanged or replaced by a fresh object, never aliased), so each
  is held by value.
\<close>

record Board =
  board :: "Tetrominoe list"
  cur_x :: int
  cur_y :: int
  current_piece :: Shape
  next_piece :: Shape
  hold_piece :: Shape
  bag :: "Tetrominoe list"
  rng :: "nat stream"
  hold_locked :: bool
  is_landed :: bool
  is_started :: bool
  is_paused :: bool
  is_waiting_after_line :: bool
  num_lines_removed :: int
  goal :: int
  num_goals_reached :: int
  lines_to_goal :: int
  Speed :: rat
  timer :: "rat option"
  finalize_timer :: "int option"
  left_key_timer :: "int option"
  right_key_timer :: "int option"
  down_key_timer :: "int option"
  statusbar :: "string list"
  repaints :: nat

definition shape_at :: "Tetrominoe list \<Rightarrow> int \<Rightarrow> int \<Rightarrow> error + Tetrominoe" where
  "shape_at b x y = py_getitem b (y * board_width + x)"

definition set_shape_at :: "int \<Rightarrow> int \<Rightarrow> Tetrominoe \<Rightarrow> Tetrominoe list \<Rightarrow> error + Tetrominoe list" where
  "set_shape_at x y k b = py_setitem b (y * board_width + x) k"

definition update :: "Board \<Rightarrow> Board" where
  "update s = s\<lparr>repaints := repaints s + 1\<rparr>"

text \<open>
  The loop of \<^verbatim>\<open>try_move\<close>: \<open>Inr False\<close> is one of its two early returns,
  \<open>Inr True\<close> is falling through after the fourth cell.
\<close>

fun try_move_cells :: "Tetrominoe list \<Rightarrow> Shape \<Rightarrow> int \<Rightarrow> int \<Rightarrow> nat list \<Rightarrow> error + bool" where
  "try_move_cells b p new_x new_y [] = Inr True"
| "try_move_cells b p new_x new_y (i # is) =
     (let x = new_x + shape_x p i; y = new_y - shape_y p i in
      if x < 0 \<or> x \<ge> board_width \<or> y < 0 \<or> y \<ge> BoardHeight then Inr False
      else bind_err (shape_at b x y) (\<lambda>c.
        if c \<noteq> NoShape then Inr False else try_move_cells b p new_x new_y is))"

definition try_move :: "Shape \<Rightarrow> int \<Rightarrow> int \<Rightarrow> Board \<Rightarrow> error + bool \<times> Board" where
  "try_move new_piece new_x new_y s =
     bind_err (try_move_cells (board s) new_piece new_x new_y [0..<4]) (\<lambda>ok.
       if ok then Inr (True, update (s\<lparr>current_piece := new_piece, cur_x := new_x, cur_y := new_y\<rparr>))
       else Inr (False, s))"

definition try_rotate_right :: "Board \<Rightarrow> error + Board" where
  "try_rotate_right s =
     (let new_piece = rotate_right (current_piece s) in
      bind_err (try_move new_piece (cur_x s) (cur_y s) s) (\<lambda>(ok, s). if ok then Inr s else
      bind_err (try_move new_piece (cur_x s - 1) (cur_y s) s) (\<lambda>(ok, s). if ok then Inr s else
      bind_err (try_move new_piece (cur_x s + 1) (cur_y s) s) (\<lambda>(ok, s). if ok then Inr s else
      bind_err (try_move new_piece (cur_x s) (cur_y s + 1) s) (\<lambda>(ok, s). if ok then Inr s else
      bind_err (try_move new_piece (cur_x s) (cur_y s - 1) s) (\<lambda>(ok, s). Inr s))))))"

subsection \<open>The bag\<close>

text \<open>
  \<^verbatim>\<open>random.shuffle(x)\<close> is the library's loop
  \<^verbatim>\<open>for i in reversed(range(1, len(x))): j = randbelow(i + 1); x[i], x[j] = x[j], x[i]\<close>.
  The numbers drawn come from the stream \<open>rng\<close>; reducing modulo \<open>n\<close> is what makes
  a drawn number lie below \<open>n\<close>, as the library guarantees.
\<close>

definition randbelow :: "nat \<Rightarrow> nat stream \<Rightarrow> nat \<times> nat stream" where
  "randbelow n r = (shd r mod n, stl r)"

fun shuffle_steps :: "nat list \<Rightarrow> 'a list \<Rightarrow> nat stream \<Rightarrow> 'a list \<times> nat stream" where
  "shuffle_steps [] xs r = (xs, r)"
| "shuffle_steps (i # is) xs r =
     (let (j, r') = randbelow (i + 1) r in shuffle_steps is (xs[i := xs ! j, j := xs ! i]) r')"

definition shuffle :: "'a list \<Rightarrow> nat stream \<Rightarrow> 'a list \<times> nat stream" where
  "shuffle xs r = shuffle_steps (rev [1..<length xs]) xs r"

text \<open>\<^verbatim>\<open>list(range(1, 8))\<close>, as kinds.\<close>

definition all_kinds :: "Tetrominoe list" where
  "all_kinds = [ZShape, SShape, LineShape, TShape, SquareShape, LShape, MirroredLShape]"

definition py_pop :: "'a list \<Rightarrow> error + 'a \<times> 'a list" where
  "py_pop xs = (if xs = [] then Inl IndexError else Inr (last xs, butlast xs))"

definition get_next_shape :: "Board \<Rightarrow> error + Tetrominoe \<times> Board" where
  "get_next_shape s =
     (let s = (if bag s = [] then
                 (let (xs, r) = shuffle all_kinds (rng s) in s\<lparr>bag := xs, rng := r\<rparr>)
               else s)
      in bind_err (py_pop (bag s)) (\<lambda>(k, rest). Inr (k, s\<lparr>bag := rest\<rparr>)))"

subsection \<open>Spawning, locking and clearing lines\<close>

text \<open>\<^verbatim>\<open>str(n)\<close> for an integer.\<close>

definition digit_char :: "nat \<Rightarrow> char" where
  "digit_char d = ''0123456789'' ! d"

fun str_nat :: "nat \<Rightarrow> string" where
  "str_nat n = (if n < 10 then [digit_char n] else str_nat (n div 10) @ [digit_char (n mod 10)])"

declare str_nat.simps [simp del]

definition str_int :: "int \<Rightarrow> string" where
  "str_int i = (if i < 0 then CHR ''-'' # str_nat (nat (- i)) else str_nat (nat i))"

definition emit :: "string \<Rightarrow> Board \<Rightarrow> Board" where
  "emit m s = s\<lparr>statusbar := statusbar s @ [m]\<rparr>"

text \<open>The four lines that end the game in \<^verbatim>\<open>new_piece\<close> and in \<^verbatim>\<open>hold_current_piece\<close>.\<close>

definition game_over :: "Board \<Rightarrow> Board" where
  "game_over s =
     emit ''Game over''
       (s\<lparr>current_piece := set_shape NoShape (current_piece s),
          timer := None, finalize_timer := None, is_started := False\<rparr>)"

definition new_piece :: "Board \<Rightarrow> error + Board" where
  "new_piece s =
     (let s = s\<lparr>current_piece := set_shape (piece_shape (next_piece s)) (current_piece s)\<rparr> in
      bind_err (get_next_shape s) (\<lambda>(k, s).
        let s = s\<lparr>next_piece := set_shape k (next_piece s)\<rparr>;
            s = s\<lparr>cur_x := board_width div 2 + 1\<rparr>;
            s = s\<lparr>cur_y := BoardHeight - 1 + min_y (current_piece s)\<rparr>
        in bind_err (try_move (current_piece s) (cur_x s) (cur_y s) s) (\<lambda>(ok, s).
             if \<not> ok then Inr (game_over s) else Inr s)))"

text \<open>The scan for full rows: the inner loop counts, the outer loop collects.\<close>

definition count_cell :: "Tetrominoe list \<Rightarrow> nat \<Rightarrow> nat \<Rightarrow> int \<Rightarrow> error + int" where
  "count_cell b i j n =
     bind_err (shape_at b (int j) (int i)) (\<lambda>c. Inr (if \<not> c = NoShape then n + 1 else n))"

definition scan_row :: "Tetrominoe list \<Rightarrow> nat \<Rightarrow> nat list \<Rightarrow> error + nat list" where
  "scan_row b i rows =
     bind_err (for_each (count_cell b i) [0..<nat board_width] 0) (\<lambda>n.
       Inr (if n = 10 then rows @ [i] else rows))"

definition full_rows :: "Tetrominoe list \<Rightarrow> error + nat list" where
  "full_rows b = for_each (scan_row b) [0..<nat BoardHeight] []"

text \<open>The body of the loop over \<^verbatim>\<open>rows_to_remove\<close>, for one row \<open>m\<close>.\<close>

definition copy_cell_down :: "nat \<Rightarrow> nat \<Rightarrow> Tetrominoe list \<Rightarrow> error + Tetrominoe list" where
  "copy_cell_down k l b =
     bind_err (shape_at b (int l) (int k + 1)) (\<lambda>c. set_shape_at (int l) (int k) c b)"

definition remove_row :: "nat \<Rightarrow> Tetrominoe list \<Rightarrow> error + Tetrominoe list" where
  "remove_row m b =
     bind_err
       (for_each (\<lambda>k. for_each (copy_cell_down k) [0..<nat board_width])
          [m..<nat (BoardHeight - 1)] b)
       (for_each (\<lambda>l. set_shape_at (int l) (BoardHeight - 1) NoShape) [0..<nat board_width])"

text \<open>\<^verbatim>\<open>int(v)\<close> for a float: truncation towards zero.\<close>

definition py_int_of_float :: "rat \<Rightarrow> int" where
  "py_int_of_float v = (if v < 0 then \<lceil>v\<rceil> else \<lfloor>v\<rfloor>)"

text \<open>
  \<^verbatim>\<open>labels()\<close>, called at a level-up, only writes the texts of four widgets from
  the counters; it changes no attribute and is left out.
\<close>

definition remove_full_lines :: "Board \<Rightarrow> error + Board" where
  "remove_full_lines s =
     bind_err (full_rows (board s)) (\<lambda>rows_to_remove.
     bind_err (for_each remove_row (rev rows_to_remove) (board s)) (\<lambda>b.
       let s = s\<lparr>board := b\<rparr>;
           num_full_lines = 0 + int (length rows_to_remove)
       in if num_full_lines > 0 then
            let s = s\<lparr>num_lines_removed := num_lines_removed s + int (length rows_to_remove)\<rparr>;
                s = emit (str_int (num_lines_removed s)) s;
                s = s\<lparr>is_waiting_after_line := True\<rparr>;
                s = s\<lparr>current_piece := set_shape NoShape (current_piece s)\<rparr>;
                s = update s;
                s = s\<lparr>lines_to_goal := lines_to_goal s + int (length rows_to_remove)\<rparr>
            in if lines_to_goal s \<ge> goal s then
                 let s = (if num_goals_reached s \<noteq> 0
                          then s\<lparr>goal := 5 * num_goals_reached s + goal s\<rparr>
                          else s\<lparr>goal := 5 + goal s\<rparr>);
                     s = s\<lparr>lines_to_goal := 0\<rparr>;
                     s = s\<lparr>num_goals_reached := num_goals_reached s + 1\<rparr>;
                     s = s\<lparr>Speed := Speed s - Speed s / 4\<rparr>;
                     s = s\<lparr>timer := Some (of_int (py_int_of_float (Speed s)))\<rparr>
                 in Inr s
               else Inr s
          else Inr s))"

definition finalize_piece :: "Board \<Rightarrow> error + Board" where
  "finalize_piece s =
     (let s = s\<lparr>finalize_timer := None\<rparr> in
      bind_err
        (for_each (\<lambda>i b. set_shape_at (cur_x s + shape_x (current_piece s) i)
                            (cur_y s - shape_y (current_piece s) i)
                            (piece_shape (current_piece s)) b)
           [0..<4] (board s)) (\<lambda>b.
      bind_err (remove_full_lines (s\<lparr>board := b\<rparr>)) (\<lambda>s.
        let s = s\<lparr>is_landed := False\<rparr> in
        if \<not> is_waiting_after_line s then
          bind_err (new_piece s) (\<lambda>s. Inr (s\<lparr>hold_locked := False\<rparr>))
        else Inr s)))"

definition piece_dropped :: "Board \<Rightarrow> error + Board" where
  "piece_dropped s = finalize_piece (s\<lparr>is_landed := True\<rparr>)"

definition one_line_down :: "Board \<Rightarrow> error + Board" where
  "one_line_down s =
     bind_err (try_move (current_piece s) (cur_x s) (cur_y s - 1) s) (\<lambda>(ok, s).
       if \<not> ok then piece_dropped s else Inr s)"

function drop_down_loop :: "int \<Rightarrow> Board \<Rightarrow> error + Board" where
  "drop_down_loop new_y s =
     (if new_y > 0 then
        bind_err (try_move (current_piece s) (cur_x s) (new_y - 1) s) (\<lambda>(ok, s).
          if \<not> ok then Inr s else drop_down_loop (new_y - 1) s)
      else Inr s)"
  by pat_completeness auto
termination
  by (relation "measure (\<lambda>(new_y, s). nat new_y)") auto

declare drop_down_loop.simps [simp del]

definition drop_down :: "Board \<Rightarrow> error + Board" where
  "drop_down s = bind_err (drop_down_loop (cur_y s) s) piece_dropped"

definition move_left :: "Board \<Rightarrow> error + Board" where
  "move_left s = bind_err (try_move (current_piece s) (cur_x s - 1) (cur_y s) s) (\<lambda>(ok, s). Inr s)"

definition move_right :: "Board \<Rightarrow> error + Board" where
  "move_right s = bind_err (try_move (current_piece s) (cur_x s + 1) (cur_y s) s) (\<lambda>(ok, s). Inr s)"

definition move_down :: "Board \<Rightarrow> error + Board" where
  "move_down s =
     bind_err (try_move (current_piece s) (cur_x s) (cur_y s - 1) s) (\<lambda>(ok, s).
       if \<not> ok then piece_dropped s else Inr s)"

definition hold_current_piece :: "Board \<Rightarrow> error + Board" where
  "hold_current_piece s =
     (if \<not> hold_locked s then
        bind_err
          (if piece_shape (hold_piece s) = NoShape then
             new_piece (s\<lparr>hold_piece := set_shape (piece_shape (current_piece s)) (hold_piece s)\<rparr>)
           else
             (let s = s\<lparr>current_piece := hold_piece s, hold_piece := current_piece s\<rparr>;
                  s = s\<lparr>cur_x := board_width div 2 + 1\<rparr>;
                  s = s\<lparr>cur_y := BoardHeight - 1 + min_y (current_piece s)\<rparr>
              in bind_err (try_move (current_piece s) (cur_x s) (cur_y s) s) (\<lambda>(ok, s).
                   if \<not> ok then Inr (game_over s) else Inr s)))
          (\<lambda>s. Inr (update (s\<lparr>hold_locked := True\<rparr>)))
      else Inr s)"

subsection \<open>Session start, pause, ticks and keys\<close>

definition clear_board :: "Board \<Rightarrow> Board" where
  "clear_board s = s\<lparr>board := replicate (nat (BoardHeight * board_width)) NoShape\<rparr>"

text \<open>
  \<^verbatim>\<open>init_board\<close>, without its widgets and sockets. Its two parameters are what the
  constructor finds outside the object: the class attribute \<^verbatim>\<open>Board.Speed\<close> and the
  state of the random generator.
\<close>

definition init_board :: "rat \<Rightarrow> nat stream \<Rightarrow> error + Board" where
  "init_board speed r =
     bind_err
       (get_next_shape
          (clear_board
             \<lparr>board = [], cur_x = 0, cur_y = 0, current_piece = new_Shape,
              next_piece = new_Shape, hold_piece = new_Shape, bag = [], rng = r,
              hold_locked = False, is_landed = False, is_started = False, is_paused = False,
              is_waiting_after_line = False, num_lines_removed = 0, goal = 10,
              num_goals_reached = 0, lines_to_goal = 0, Speed = speed, timer = None,
              finalize_timer = None, left_key_timer = None, right_key_timer = None,
              down_key_timer = None, statusbar = [], repaints = 0\<rparr>))
       (\<lambda>(k, s). Inr (s\<lparr>next_piece := set_shape k (next_piece s)\<rparr>))"

definition start :: "Board \<Rightarrow> error + Board" where
  "start s =
     (if is_paused s then Inr s
      else
        let s = s\<lparr>is_started := True, is_waiting_after_line := False, num_lines_removed := 0\<rparr>;
            s = clear_board s;
            s = emit (str_int (num_lines_removed s)) s
        in bind_err (new_piece s) (\<lambda>s. Inr (s\<lparr>timer := Some (Speed s)\<rparr>)))"

definition pause :: "Board \<Rightarrow> Board" where
  "pause s =
     (if \<not> is_started s then s
      else
        let s = s\<lparr>is_paused := \<not> is_paused s\<rparr>;
            s = (if is_paused s then
                   emit ''Paused''
                     (s\<lparr>timer := None, finalize_timer := None, left_key_timer := None,
                        right_key_timer := None, down_key_timer := None\<rparr>)
                 else emit (str_int (num_lines_removed s)) (s\<lparr>timer := Some (Speed s)\<rparr>))
        in update s)"

text \<open>
  \<^verbatim>\<open>timerEvent\<close>; the flag says whether the event's timer id is that of
  \<^verbatim>\<open>self.timer\<close>. Any other event goes to the base class, which changes nothing here.
\<close>

definition timerEvent :: "bool \<Rightarrow> Board \<Rightarrow> error + Board" where
  "timerEvent from_game_timer s =
     (if from_game_timer then
        (if is_waiting_after_line s then new_piece (s\<lparr>is_waiting_after_line := False\<rparr>)
         else one_line_down s)
      else Inr s)"

text \<open>
  One gravity tick as the session receives it: the toolkit delivers an event of
  \<^verbatim>\<open>self.timer\<close> only while that timer is running.
\<close>

definition tick :: "Board \<Rightarrow> error + Board" where
  "tick s = (if timer s = None then Inr s else timerEvent True s)"

datatype Key = Key_P | Key_Left | Key_Right | Key_Down | Key_Space | Key_Up | Key_C | Key_Other

text \<open>
  \<^verbatim>\<open>keyPressEvent\<close>. The base-class handler, called at the guard and for any other
  key, changes nothing of the board.
\<close>

definition keyPressEvent :: "Key \<Rightarrow> Board \<Rightarrow> error + Board" where
  "keyPressEvent key s =
     (if \<not> is_started s \<or> piece_shape (current_piece s) = NoShape then Inr s
      else if key = Key_P then Inr (pause s)
      else if is_paused s then Inr s
      else if key = Key_Left then
        bind_err (move_left s) (\<lambda>s. Inr (s\<lparr>left_key_timer := Some KeyRepeatDelay\<rparr>))
      else if key = Key_Right then
        bind_err (move_right s) (\<lambda>s. Inr (s\<lparr>right_key_timer := Some KeyRepeatDelay\<rparr>))
      else if key = Key_Down then
        bind_err (move_down s) (\<lambda>s. Inr (s\<lparr>down_key_timer := Some KeyRepeatDelay\<rparr>))
      else if key = Key_Space then drop_down s
      else if key = Key_Up then
        bind_err (try_rotate_right s) (\<lambda>s.
          if finalize_timer s \<noteq> None then Inr (s\<lparr>finalize_timer := Some FinalizeDelay\<rparr>)
          else Inr s)
      else if key = Key_C then hold_current_piece s
      else Inr s)"

text \<open>
  The three key-repeat timers. \<^verbatim>\<open>init_board\<close> connects their timeouts to
  \<^verbatim>\<open>move_left\<close>, \<^verbatim>\<open>move_right\<close> and \<^verbatim>\<open>move_down\<close>; a key press starts
  the timer of its key, a key release or a pause stops it. While a timer runs, each of
  its timeouts calls the slot, which has no guard of its own.
\<close>

datatype repeat_timer = Left_repeat | Right_repeat | Down_repeat

fun timeout :: "repeat_timer \<Rightarrow> Board \<Rightarrow> error + Board" where
  "timeout Left_repeat s = (if left_key_timer s = None then Inr s else move_left s)"
| "timeout Right_repeat s = (if right_key_timer s = None then Inr s else move_right s)"
| "timeout Down_repeat s = (if down_key_timer s = None then Inr s else move_down s)"

section \<open>The join code\<close>

text \<open>
  The two functions at the top of the module call the standard library; each library
  function is modelled by what it computes and when it raises. Bytes are the numbers
  below 256. A string is a list of characters with codes below 256.
\<close>

subsection \<open>Library: strings and integers\<close>

text \<open>\<^verbatim>\<open>s.split(c)\<close>: the pieces between the occurrences of \<open>c\<close>, one more than there are occurrences.\<close>

fun split_on :: "char \<Rightarrow> string \<Rightarrow> string list" where
  "split_on c [] = [[]]"
| "split_on c (x # xs) =
     (if x = c then [] # split_on c xs
      else (case split_on c xs of [] \<Rightarrow> [[x]] | p # ps \<Rightarrow> (x # p) # ps))"

text \<open>\<^verbatim>\<open>sep.join(parts)\<close>.\<close>

fun join :: "string \<Rightarrow> string list \<Rightarrow> string" where
  "join sep [] = []"
| "join sep [p] = p"
| "join sep (p # q # ps) = p @ sep @ join sep (q # ps)"

text \<open>
  \<^verbatim>\<open>int(s)\<close> for a string, in base 10: white space around (tab to carriage
  return, space, and the two spaces of Latin-1, next line and no-break space), an
  optional sign, then digits, where single underscores may stand between digits; more
  than 4300 digits are refused (the interpreter's default limit). Anything else raises
  ValueError.
\<close>

definition is_space :: "char \<Rightarrow> bool" where
  "is_space c = ((of_char c :: nat) \<in> {9, 10, 11, 12, 13, 32, 133, 160})"

definition is_digit :: "char \<Rightarrow> bool" where
  "is_digit c = (48 \<le> (of_char c :: nat) \<and> (of_char c :: nat) \<le> 57)"

fun digits_ok :: "string \<Rightarrow> bool" where
  "digits_ok [] = False"
| "digits_ok [c] = is_digit c"
| "digits_ok (c # d # cs) =
     (is_digit c \<and> (if d = CHR ''_'' then digits_ok cs else digits_ok (d # cs)))"

definition digits_value :: "string \<Rightarrow> nat" where
  "digits_value ds = foldl (\<lambda>a c. 10 * a + (of_char c - 48)) 0 (filter is_digit ds)"

definition py_int :: "string \<Rightarrow> error + int" where
  "py_int s =
     (let t = dropWhile is_space s;
          neg = (t \<noteq> [] \<and> hd t = CHR ''-'');
          u = (if t \<noteq> [] \<and> (hd t = CHR ''-'' \<or> hd t = CHR ''+'') then tl t else t);
          v = rev (dropWhile is_space (rev u))
      in if digits_ok v \<and> length (filter is_digit v) \<le> 4300
         then Inr (if neg then - int (digits_value v) else int (digits_value v))
         else Inl ValueError)"

subsection \<open>Library: struct\<close>

text \<open>
  \<^verbatim>\<open>struct.pack('!BBBB', a, b, c, d)\<close> and \<^verbatim>\<open>struct.pack('!H', p)\<close>: a value
  outside the range of its field raises \<^verbatim>\<open>struct.error\<close>; the 16-bit field is
  written high byte first. \<^verbatim>\<open>struct.unpack\<close> raises \<^verbatim>\<open>struct.error\<close> unless
  the buffer has exactly the size of the format.
\<close>

definition struct_pack_BBBB :: "int \<Rightarrow> int \<Rightarrow> int \<Rightarrow> int \<Rightarrow> error + nat list" where
  "struct_pack_BBBB a b c d =
     (if list_all (\<lambda>v. 0 \<le> v \<and> v \<le> 255) [a, b, c, d] then Inr (map nat [a, b, c, d])
      else Inl StructError)"

definition struct_pack_H :: "int \<Rightarrow> error + nat list" where
  "struct_pack_H p =
     (if 0 \<le> p \<and> p \<le> 65535 then Inr [nat p div 256, nat p mod 256] else Inl StructError)"

definition struct_unpack_BBBB :: "nat list \<Rightarrow> error + nat list" where
  "struct_unpack_BBBB bs = (if length bs = 4 then Inr bs else Inl StructError)"

definition struct_unpack_H :: "nat list \<Rightarrow> error + int" where
  "struct_unpack_H bs =
     (if length bs = 2 then Inr (int (bs ! 0 * 256 + bs ! 1)) else Inl StructError)"

subsection \<open>Library: base64\<close>

definition b64_alphabet :: string where
  "b64_alphabet = ''ABCDEFGHIJKLMNOPQRSTUVWXYZabcdefghijklmnopqrstuvwxyz0123456789+/''"

definition table_b2a :: "nat \<Rightarrow> char" where
  "table_b2a v = b64_alphabet ! v"

fun index_of :: "'a \<Rightarrow> 'a list \<Rightarrow> nat option" where
  "index_of c [] = None"
| "index_of c (x # xs) = (if x = c then Some 0 else map_option Suc (index_of c xs))"

definition table_a2b :: "char \<Rightarrow> nat option" where
  "table_a2b c = index_of c b64_alphabet"

text \<open>
  \<^verbatim>\<open>base64.b64encode\<close>: three bytes become four characters of the alphabet; a last
  group of one or two bytes is padded with \<open>=\<close>.
\<close>

fun b64encode :: "nat list \<Rightarrow> string" where
  "b64encode [] = []"
| "b64encode [a] =
     [table_b2a (a div 4), table_b2a (a mod 4 * 16), CHR ''='', CHR ''='']"
| "b64encode [a, b] =
     [table_b2a (a div 4), table_b2a (a mod 4 * 16 + b div 16), table_b2a (b mod 16 * 4),
      CHR ''='']"
| "b64encode (a # b # c # bs) =
     [table_b2a (a div 4), table_b2a (a mod 4 * 16 + b div 16),
      table_b2a (b mod 16 * 4 + c div 64), table_b2a (c mod 64)] @ b64encode bs"

text \<open>
  \<^verbatim>\<open>base64.b64decode(s)\<close> with its default \<^verbatim>\<open>validate=False\<close>. A string with a
  non-ASCII character raises ValueError. Then the decoder reads the characters in order
  with the state \<open>quad_pos\<close>, \<open>leftchar\<close>, \<open>pads\<close>: a character outside the alphabet
  is skipped; \<open>=\<close> ends the decoding once it completes a group of at least two
  characters, and is skipped otherwise; at the end of the input an unfinished group
  raises \<^verbatim>\<open>binascii.Error\<close>. The byte emitted is
  \<^verbatim>\<open>(leftchar << k) | (this_ch >> (6 - k))\<close> stored in an unsigned char; the two
  operands have no bit in common, so it is their sum, reduced modulo 256.
\<close>

fun a2b_base64 :: "string \<Rightarrow> nat \<Rightarrow> nat \<Rightarrow> nat \<Rightarrow> nat list \<Rightarrow> error + nat list" where
  "a2b_base64 [] quad_pos leftchar pads out =
     (if quad_pos \<noteq> 0 then Inl BinasciiError else Inr out)"
| "a2b_base64 (c # cs) quad_pos leftchar pads out =
     (if c = CHR ''='' then
        (if quad_pos \<ge> 2 \<and> quad_pos + (pads + 1) \<ge> 4 then Inr out
         else a2b_base64 cs quad_pos leftchar (if quad_pos \<ge> 2 then pads + 1 else pads) out)
      else
        (case table_a2b c of
           None \<Rightarrow> a2b_base64 cs quad_pos leftchar pads out
         | Some this_ch \<Rightarrow>
             if quad_pos = 0 then a2b_base64 cs 1 this_ch 0 out
             else if quad_pos = 1 then
               a2b_base64 cs 2 (this_ch mod 16) 0
                 (out @ [(leftchar * 4 + this_ch div 16) mod 256])
             else if quad_pos = 2 then
               a2b_base64 cs 3 (this_ch mod 4) 0
                 (out @ [(leftchar * 16 + this_ch div 4) mod 256])
             else
               a2b_base64 cs 0 0 0 (out @ [(leftchar * 64 + this_ch) mod 256])))"

definition b64decode :: "string \<Rightarrow> error + nat list" where
  "b64decode s =
     (if list_ex (\<lambda>c. (of_char c :: nat) \<ge> 128) s then Inl ValueError
      else a2b_base64 s 0 0 0 [])"

subsection \<open>The two functions\<close>

definition ipv4_port_to_base64 :: "string \<Rightarrow> int \<Rightarrow> error + string" where
  "ipv4_port_to_base64 ipv4 port =
     (let octets = split_on CHR ''.'' ipv4 in
      bind_err (py_getitem octets 0) (\<lambda>o0. bind_err (py_int o0) (\<lambda>a.
      bind_err (py_getitem octets 1) (\<lambda>o1. bind_err (py_int o1) (\<lambda>b.
      bind_err (py_getitem octets 2) (\<lambda>o2. bind_err (py_int o2) (\<lambda>c.
      bind_err (py_getitem octets 3) (\<lambda>o3. bind_err (py_int o3) (\<lambda>d.
      bind_err (struct_pack_BBBB a b c d) (\<lambda>ip_bytes.
      bind_err (struct_pack_H port) (\<lambda>port_bytes.
        let combined_bytes = ip_bytes @ port_bytes;
            base64_encoded = b64encode combined_bytes
        in Inr base64_encoded)))))))))))"

definition base64_to_ipv4_port :: "string \<Rightarrow> error + string \<times> int" where
  "base64_to_ipv4_port base64_encoded =
     bind_err (b64decode base64_encoded) (\<lambda>combined_bytes.
       let ip_bytes = take 4 combined_bytes in
       bind_err (struct_unpack_BBBB ip_bytes) (\<lambda>octets.
         let ipv4 = join ''.'' (map (\<lambda>n. str_int (int n)) octets);
             port_bytes = drop 4 combined_bytes
         in bind_err (struct_unpack_H port_bytes) (\<lambda>port. Inr (ipv4, port))))"

text \<open>
  The canonical dotted quad of four octets, and the characters a token may consist of
  when it is valid text of the encoding.
\<close>

definition dotted_quad :: "nat \<Rightarrow> nat \<Rightarrow> nat \<Rightarrow> nat \<Rightarrow> string" where
  "dotted_quad a b c d = join ''.'' (map str_nat [a, b, c, d])"


section \<open>Specification vocabulary\<close>

text \<open>
  A cell is free when it lies on the 10 by 22 grid and holds \<open>NoShape\<close>; a piece fits
  at a position when its four cells are free. Row 0 is the bottom row and the cell
  \<open>(x, y)\<close> is element \<open>y * 10 + x\<close> of the list.
\<close>

definition cell_free :: "Tetrominoe list \<Rightarrow> int \<Rightarrow> int \<Rightarrow> bool" where
  "cell_free b x y \<longleftrightarrow> 0 \<le> x \<and> x < 10 \<and> 0 \<le> y \<and> y < 22 \<and> b ! nat (y * 10 + x) = NoShape"

definition fits :: "Tetrominoe list \<Rightarrow> Shape \<Rightarrow> int \<Rightarrow> int \<Rightarrow> bool" where
  "fits b p x y = list_all (\<lambda>i. cell_free b (x + shape_x p i) (y - shape_y p i)) [0..<4]"

text \<open>The order of the positions a rotation tries: in place, left, right, up, down.\<close>

definition kick_offsets :: "(int \<times> int) list" where
  "kick_offsets = [(0, 0), (-1, 0), (1, 0), (0, 1), (0, -1)]"

text \<open>
  A concrete session for the examples: the object that \<open>init_board 300 (sconst 0)\<close>
  builds, written out.
\<close>

definition example_Board :: Board where
  "example_Board =
     \<lparr>board = replicate 220 NoShape, cur_x = 0, cur_y = 0,
      current_piece = \<lparr>coords = [(0, 0), (0, 0), (0, 0), (0, 0)], piece_shape = NoShape\<rparr>,
      next_piece = \<lparr>coords = [(0, -1), (0, 0), (-1, 0), (-1, 1)], piece_shape = ZShape\<rparr>,
      hold_piece = \<lparr>coords = [(0, 0), (0, 0), (0, 0), (0, 0)], piece_shape = NoShape\<rparr>,
      bag = [SShape, LineShape, TShape, SquareShape, LShape, MirroredLShape],
      rng = sconst 0, hold_locked = False, is_landed = False, is_started = False,
      is_paused = False, is_waiting_after_line = False, num_lines_removed = 0, goal = 10,
      num_goals_reached = 0, lines_to_goal = 0, Speed = 300, timer = None,
      finalize_timer = None, left_key_timer = None, right_key_timer = None,
      down_key_timer = None, statusbar = [], repaints = 0\<rparr>"

text \<open>An S piece standing against the left wall of the empty grid.\<close>

definition wall_Board :: Board where
  "wall_Board =
     example_Board\<lparr>current_piece := set_shape SShape new_Shape, cur_x := 0, cur_y := 5,
       is_started := True\<rparr>"

text \<open>A run of \<open>n\<close> consecutive calls of \<open>get_next_shape\<close>, with the kinds drawn in order.\<close>

fun draw_n :: "nat \<Rightarrow> Board \<Rightarrow> error + Tetrominoe list \<times> Board" where
  "draw_n 0 s = Inr ([], s)"
| "draw_n (Suc n) s =
     bind_err (get_next_shape s) (\<lambda>(k, s).
       bind_err (draw_n n s) (\<lambda>(ks, s). Inr (k # ks, s)))"

text \<open>
  A row is full when its ten cells are all other than \<open>NoShape\<close>. Deleting row \<open>m\<close>
  drops its ten cells from the list, which moves every row above it down by one, and
  appends an empty top row.
\<close>

definition row_full :: "Tetrominoe list \<Rightarrow> nat \<Rightarrow> bool" where
  "row_full b i = list_all (\<lambda>j. b ! (i * 10 + j) \<noteq> NoShape) [0..<10]"

definition cleared_rows :: "Tetrominoe list \<Rightarrow> nat list" where
  "cleared_rows b = filter (row_full b) [0..<22]"

definition delete_row :: "nat \<Rightarrow> Tetrominoe list \<Rightarrow> Tetrominoe list" where
  "delete_row m b = take (m * 10) b @ drop (m * 10 + 10) b @ replicate 10 NoShape"

text \<open>
  The two blocks of assignments in \<^verbatim>\<open>remove_full_lines\<close>, as functions of the
  state for the proofs: the bookkeeping after \<open>n\<close> rows were removed, and the level-up.
\<close>

definition count_lines :: "int \<Rightarrow> Board \<Rightarrow> Board" where
  "count_lines n s =
     s\<lparr>num_lines_removed := num_lines_removed s + n,
       statusbar := statusbar s @ [str_int (num_lines_removed s + n)],
       is_waiting_after_line := True,
       current_piece := set_shape NoShape (current_piece s),
       repaints := repaints s + 1,
       lines_to_goal := lines_to_goal s + n\<rparr>"

definition level_up :: "Board \<Rightarrow> Board" where
  "level_up s =
     s\<lparr>goal := (if num_goals_reached s \<noteq> 0 then 5 * num_goals_reached s + goal s else 5 + goal s),
       lines_to_goal := 0,
       num_goals_reached := num_goals_reached s + 1,
       Speed := Speed s - Speed s / 4,
       timer := Some (of_int (py_int_of_float (Speed s - Speed s / 4)))\<rparr>"

text \<open>The assignments of \<^verbatim>\<open>new_piece\<close> that put a piece of kind \<open>k\<close> at the top.\<close>

definition spawn :: "Tetrominoe \<Rightarrow> Board \<Rightarrow> Board" where
  "spawn k s =
     s\<lparr>current_piece := set_shape k (current_piece s), cur_x := 6,
       cur_y := 21 + min_y (set_shape k (current_piece s))\<rparr>"

text \<open>
  The cells a piece of kind \<open>k\<close> takes when it is spawned: column 6 and row
  \<open>21 + min_y\<close> as the origin. The spawn is occupied when one of them holds a landed
  cell.
\<close>

definition spawn_cells :: "Tetrominoe \<Rightarrow> (int \<times> int) list" where
  "spawn_cells k =
     (let p = set_shape k new_Shape
      in map (\<lambda>i. (6 + shape_x p i, 21 + min_y p - shape_y p i)) [0..<4])"

definition spawn_occupied :: "Board \<Rightarrow> bool" where
  "spawn_occupied s =
     list_ex (\<lambda>(x, y). board s ! nat (y * 10 + x) \<noteq> NoShape)
       (spawn_cells (piece_shape (next_piece s)))"

text \<open>What the session receives after that: gravity ticks and key presses, in any order.\<close>

datatype event = Tick | KeyPress Key

fun deliver :: "event \<Rightarrow> Board \<Rightarrow> error + Board" where
  "deliver Tick s = tick s"
| "deliver (KeyPress key) s = keyPressEvent key s"

text \<open>The grid with the four cells of the current piece written into it, as a lock does.\<close>

definition landed :: "Board \<Rightarrow> Tetrominoe list" where
  "landed s =
     fold (\<lambda>i b. b[nat ((cur_y s - shape_y (current_piece s) i) * 10
                        + (cur_x s + shape_x (current_piece s) i))
                   := piece_shape (current_piece s)])
       [0..<4] (board s)"

text \<open>
  Further concrete sessions. In \<open>line_Board\<close> the bottom row is full and one cell lies
  on top of it. In \<open>blocked_Board\<close> a landed cell sits where the next piece (a Z) is
  spawned. In \<open>lock_Board\<close> two I pieces lie flat on the floor in columns 0 to 7, a Z
  piece has been held, and the falling square rests in columns 8 and 9.
\<close>

definition line_Board :: Board where
  "line_Board =
     example_Board\<lparr>board := replicate 10 LineShape @ TShape # replicate 209 NoShape,
       lines_to_goal := 9, is_started := True, timer := Some 300\<rparr>"

definition blocked_Board :: Board where
  "blocked_Board =
     example_Board\<lparr>board := (replicate 220 NoShape)[206 := SquareShape],
       is_started := True, timer := Some 300\<rparr>"

definition lock_Board :: Board where
  "lock_Board =
     example_Board\<lparr>board := replicate 8 LineShape @ replicate 212 NoShape,
       current_piece := set_shape SquareShape new_Shape, cur_x := 8, cur_y := 1,
       next_piece := set_shape SShape new_Shape,
       hold_piece := set_shape ZShape new_Shape,
       bag := [LineShape, TShape, SquareShape, LShape, MirroredLShape],
       hold_locked := True, is_started := True, timer := Some 300\<rparr>"

text \<open>A position on the grid.\<close>

definition inside :: "int \<Rightarrow> int \<Rightarrow> bool" where
  "inside x y \<longleftrightarrow> 0 \<le> x \<and> x < 10 \<and> 0 \<le> y \<and> y < 22"

text \<open>
  Two more sessions. In \<open>pillar_Board\<close> column 6 is filled to the top, the Down key
  is held (its repeat timer runs) and the next piece is about to be spawned;
  \<open>over_Board\<close> is the state in which that spawn ends the game.
\<close>

definition pillar_Board :: Board where
  "pillar_Board =
     example_Board\<lparr>board := map (\<lambda>n. if n mod 10 = 6 then LineShape else NoShape) [0..<220],
       current_piece := set_shape LineShape new_Shape, cur_x := 6, cur_y := 20,
       is_started := True, timer := Some 300, down_key_timer := Some 150\<rparr>"

definition over_Board :: Board where
  "over_Board =
     pillar_Board\<lparr>current_piece := set_shape NoShape new_Shape,
       next_piece := set_shape MirroredLShape new_Shape,
       bag := [SShape, LineShape, TShape, SquareShape, LShape],
       timer := None, is_started := False, statusbar := [''Game over'']\<rparr>"

section \<open>Properties\<close>

subsection \<open>Basic facts\<close>

lemma upt4: "[0..<4] = [0, 1, 2, 3]"
  by (simp add: upt_rec)

lemma len4E:
  assumes "length xs = 4"
  obtains a b c d where "xs = [a, b, c, d]"
  using assms
  by (cases xs; simp; (cases "tl xs"; simp; (cases "tl (tl xs)"; simp; (cases "tl (tl (tl xs))"; simp))))

lemma init_board_example: "init_board 300 (sconst 0) = Inr example_Board"
  by (simp add: init_board_def get_next_shape_def clear_board_def shuffle_def all_kinds_def
      randbelow_def py_pop_def bind_err_def BoardHeight_def board_width_def set_shape_def
      new_Shape_def upt4 upt_rec example_Board_def)

lemma py_getitem_nat: "n < length xs \<Longrightarrow> py_getitem xs (int n) = Inr (xs ! n)"
  by (simp add: py_getitem_def py_index_def bind_err_def)

lemma py_setitem_nat: "n < length xs \<Longrightarrow> py_setitem xs (int n) v = Inr (xs[n := v])"
  by (simp add: py_setitem_def py_index_def bind_err_def)

subsection \<open>Rotation\<close>

lemma rotate_right_coords:
  "length (coords s) = 4 \<Longrightarrow> piece_shape s \<noteq> SquareShape \<Longrightarrow>
   rotate_right s = \<lparr>coords = map (\<lambda>(x, y). (- y, x)) (coords s), piece_shape = piece_shape s\<rparr>"
  by (erule len4E)
    (simp add: rotate_right_def upt4 new_Shape_def set_shape_def set_x_def set_y_def
      shape_x_def shape_y_def split_beta)

lemma rotate_left_coords:
  "length (coords s) = 4 \<Longrightarrow> piece_shape s \<noteq> SquareShape \<Longrightarrow>
   rotate_left s = \<lparr>coords = map (\<lambda>(x, y). (y, - x)) (coords s), piece_shape = piece_shape s\<rparr>"
  by (erule len4E)
    (simp add: rotate_left_def upt4 new_Shape_def set_shape_def set_x_def set_y_def
      shape_x_def shape_y_def split_beta)

text \<open>
  C10. For every shape (an object with its four coordinate pairs), rotating right and
  then left gives back the same kind and the same four pairs; a square is returned
  unchanged by either rotation.
\<close>

theorem rotate_left_rotate_right:
  assumes "length (coords s) = 4"
  shows "rotate_left (rotate_right s) = s \<and>
         (piece_shape s = SquareShape \<longrightarrow> rotate_right s = s \<and> rotate_left s = s)"
proof (cases "piece_shape s = SquareShape")
  case True
  then show ?thesis by (simp add: rotate_left_def rotate_right_def)
next
  case False
  have "rotate_left (rotate_right s) = s"
    using assms False
    by (simp add: rotate_right_coords rotate_left_coords split_beta map_idI)
  with False show ?thesis by simp
qed

theorem rotate_left_rotate_right_witness:
  "length (coords (set_shape TShape new_Shape)) = 4 \<and>
   rotate_left (rotate_right (set_shape TShape new_Shape)) = set_shape TShape new_Shape \<and>
   rotate_right (set_shape TShape new_Shape)
     = \<lparr>coords = [(0, -1), (0, 0), (0, 1), (-1, 0)], piece_shape = TShape\<rparr> \<and>
   length (coords (set_shape SquareShape new_Shape)) = 4 \<and>
   piece_shape (set_shape SquareShape new_Shape) = SquareShape \<and>
   rotate_right (set_shape SquareShape new_Shape) = set_shape SquareShape new_Shape \<and>
   rotate_left (set_shape SquareShape new_Shape) = set_shape SquareShape new_Shape"
  using rotate_left_rotate_right [of "set_shape TShape new_Shape"]
    rotate_left_rotate_right [of "set_shape SquareShape new_Shape"]
  by (simp add: set_shape_def new_Shape_def rotate_right_def upt4 set_x_def set_y_def
      shape_x_def shape_y_def)

subsection \<open>Moving\<close>

lemma shape_at_inside:
  assumes "length b = 220" "0 \<le> x" "x < 10" "0 \<le> y" "y < 22"
  shows "shape_at b x y = Inr (b ! nat (y * 10 + x))"
proof -
  have "nat (y * 10 + x) < length b" using assms by simp
  from py_getitem_nat [OF this] show ?thesis
    using assms by (simp add: shape_at_def board_width_def)
qed

lemma try_move_cells_eq:
  "length b = 220 \<Longrightarrow>
   try_move_cells b p x y is
     = Inr (list_all (\<lambda>i. cell_free b (x + shape_x p i) (y - shape_y p i)) is)"
  by (induction "is")
    (auto simp: Let_def cell_free_def shape_at_inside bind_err_def board_width_def
      BoardHeight_def)

lemma try_move_eq:
  "length (board s) = 220 \<Longrightarrow>
   try_move p x y s =
     Inr (fits (board s) p x y,
          if fits (board s) p x y
          then s\<lparr>current_piece := p, cur_x := x, cur_y := y, repaints := repaints s + 1\<rparr>
          else s)"
  by (simp add: try_move_def try_move_cells_eq fits_def bind_err_def update_def)

text \<open>
  C1. On a board of 220 cells \<open>try_move\<close> returns, for every piece and target; when it
  returns false nothing at all has changed, and when it returns true the current piece is
  the piece passed, the position is exactly the target, and the grid is as it was.
\<close>

theorem try_move_frame:
  assumes "length (board s) = 220"
  shows "\<exists>ok s'. try_move p new_x new_y s = Inr (ok, s') \<and> board s' = board s \<and>
           (if ok then current_piece s' = p \<and> cur_x s' = new_x \<and> cur_y s' = new_y
            else s' = s)"
  using assms by (simp add: try_move_eq)

theorem try_move_frame_witness:
  "length (board example_Board) = 220 \<and>
   (\<exists>ok s'. try_move (set_shape TShape new_Shape) 0 10 example_Board = Inr (ok, s') \<and>
      board s' = board example_Board \<and>
      (if ok then current_piece s' = set_shape TShape new_Shape \<and> cur_x s' = 0 \<and> cur_y s' = 10
       else s' = example_Board))"
  using try_move_frame [of example_Board "set_shape TShape new_Shape" 0 10]
  by (simp add: example_Board_def)

subsection \<open>Rotating on the board\<close>

lemma try_rotate_right_eq:
  assumes "length (board s) = 220"
  shows "try_rotate_right s =
     Inr (case find (\<lambda>(dx, dy). fits (board s) (rotate_right (current_piece s))
                       (cur_x s + dx) (cur_y s + dy)) kick_offsets of
            None \<Rightarrow> s
          | Some (dx, dy) \<Rightarrow>
              s\<lparr>current_piece := rotate_right (current_piece s), cur_x := cur_x s + dx,
                cur_y := cur_y s + dy, repaints := repaints s + 1\<rparr>)"
  using assms
  by (simp add: try_rotate_right_def try_move_eq bind_err_def Let_def kick_offsets_def)

lemma rotate_right_kind:
  "length (coords p) = 4 \<Longrightarrow> piece_shape (rotate_right p) = piece_shape p"
  by (cases "piece_shape p = SquareShape") (simp add: rotate_right_def, simp add: rotate_right_coords)

lemma rotate_right_pairs:
  "length (coords p) = 4 \<Longrightarrow>
   coords (rotate_right p) =
     (if piece_shape p = SquareShape then coords p else map (\<lambda>(x, y). (- y, x)) (coords p))"
  by (cases "piece_shape p = SquareShape") (simp add: rotate_right_def, simp add: rotate_right_coords)

text \<open>
  C3. \<open>try_rotate_right\<close> turns the current piece by \<open>(x, y) \<mapsto> (- y, x)\<close> (a square
  stays as it is) and places it at the first position of the list in place, left, right,
  up, down where it fits; if it fits nowhere the state is unchanged. In particular, when
  it fits neither in place nor one cell to the left but fits one cell to the right, the
  piece ends at \<open>(x + 1, y)\<close>.
\<close>

theorem try_rotate_right_order:
  assumes "length (board s) = 220" and "length (coords (current_piece s)) = 4"
  shows "(let p = rotate_right (current_piece s);
              ok = (\<lambda>(dx, dy). fits (board s) p (cur_x s + dx) (cur_y s + dy))
          in piece_shape p = piece_shape (current_piece s) \<and>
             coords p = (if piece_shape (current_piece s) = SquareShape
                         then coords (current_piece s)
                         else map (\<lambda>(x, y). (- y, x)) (coords (current_piece s))) \<and>
             try_rotate_right s =
               Inr (case find ok kick_offsets of
                      None \<Rightarrow> s
                    | Some (dx, dy) \<Rightarrow>
                        s\<lparr>current_piece := p, cur_x := cur_x s + dx, cur_y := cur_y s + dy,
                          repaints := repaints s + 1\<rparr>) \<and>
             (\<not> ok (0, 0) \<and> \<not> ok (-1, 0) \<and> ok (1, 0) \<longrightarrow>
                (\<exists>s'. try_rotate_right s = Inr s' \<and> cur_x s' = cur_x s + 1 \<and>
                   cur_y s' = cur_y s)))"
  unfolding Let_def
  using rotate_right_kind [OF assms(2)] rotate_right_pairs [OF assms(2)]
    try_rotate_right_eq [OF assms(1)]
  by (simp add: kick_offsets_def)

theorem try_rotate_right_order_witness:
  "length (board wall_Board) = 220 \<and> length (coords (current_piece wall_Board)) = 4 \<and>
   \<not> fits (board wall_Board) (rotate_right (current_piece wall_Board)) 0 5 \<and>
   \<not> fits (board wall_Board) (rotate_right (current_piece wall_Board)) (-1) 5 \<and>
   fits (board wall_Board) (rotate_right (current_piece wall_Board)) 1 5 \<and>
   try_rotate_right wall_Board =
     Inr (wall_Board\<lparr>current_piece :=
              \<lparr>coords = [(1, 0), (0, 0), (0, 1), (-1, 1)], piece_shape = SShape\<rparr>,
            cur_x := 1, cur_y := 5, repaints := 1\<rparr>)"
  using try_rotate_right_order [of wall_Board]
  by (simp add: wall_Board_def example_Board_def Let_def kick_offsets_def fits_def
      cell_free_def upt4 set_shape_def new_Shape_def rotate_right_def shape_x_def shape_y_def
      set_x_def set_y_def)

subsection \<open>The bag\<close>

lemma shuffle_steps_mset:
  "\<forall>i \<in> set is. i < length xs \<Longrightarrow> mset (fst (shuffle_steps is xs r)) = mset xs"
proof (induction "is" arbitrary: xs r)
  case Nil
  then show ?case by simp
next
  case (Cons i "is")
  let ?j = "shd r mod (i + 1)"
  let ?ys = "xs[i := xs ! ?j, ?j := xs ! i]"
  have i: "i < length xs" using Cons.prems by simp
  have "?j < i + 1" by simp
  with i have j: "?j < length xs" by linarith
  have "mset ?ys = mset xs" using i j by (simp add: mset_swap)
  moreover have "mset (fst (shuffle_steps is ?ys (stl r))) = mset ?ys"
    using Cons.prems by (intro Cons.IH) simp
  ultimately show ?case by (simp add: randbelow_def)
qed

lemma shuffle_mset: "mset (fst (shuffle xs r)) = mset xs"
  unfolding shuffle_def by (rule shuffle_steps_mset) auto

lemma shuffle_all_kinds_ne: "fst (shuffle all_kinds r) \<noteq> []"
proof
  assume "fst (shuffle all_kinds r) = []"
  then have "mset (fst (shuffle all_kinds r)) = {#}" by simp
  then show False by (simp add: shuffle_mset all_kinds_def)
qed

lemma get_next_shape_nonempty:
  "bag s \<noteq> [] \<Longrightarrow> get_next_shape s = Inr (last (bag s), s\<lparr>bag := butlast (bag s)\<rparr>)"
  by (simp add: get_next_shape_def py_pop_def bind_err_def)

lemma get_next_shape_empty:
  "bag s = [] \<Longrightarrow>
   get_next_shape s =
     Inr (last (fst (shuffle all_kinds (rng s))),
          s\<lparr>bag := butlast (fst (shuffle all_kinds (rng s))),
            rng := snd (shuffle all_kinds (rng s))\<rparr>)"
  using shuffle_all_kinds_ne [of "rng s"]
  by (simp add: get_next_shape_def py_pop_def bind_err_def split_beta)

lemma draw_n_bag:
  "draw_n (length (bag s)) s = Inr (rev (bag s), s\<lparr>bag := []\<rparr>)"
proof (induction "bag s" arbitrary: s rule: rev_induct)
  case Nil
  then show ?case by simp
next
  case (snoc x xs)
  from snoc(2) have b: "bag s = xs @ [x]" by simp
  have g: "get_next_shape s = Inr (x, s\<lparr>bag := xs\<rparr>)"
    using b by (simp add: get_next_shape_nonempty)
  have "draw_n (length xs) (s\<lparr>bag := xs\<rparr>) = Inr (rev xs, s\<lparr>bag := xs\<rparr>\<lparr>bag := []\<rparr>)"
    using snoc(1) [of "s\<lparr>bag := xs\<rparr>"] by simp
  then show ?case using b g by (simp add: bind_err_def)
qed

lemma shuffle_all_kinds_length: "length (fst (shuffle all_kinds r)) = 7"
proof -
  have "size (mset (fst (shuffle all_kinds r))) = 7" by (simp add: shuffle_mset all_kinds_def)
  then show ?thesis by simp
qed

lemma draw_7:
  assumes "bag s = []"
  shows "draw_n 7 s = Inr (rev (fst (shuffle all_kinds (rng s))),
                           s\<lparr>rng := snd (shuffle all_kinds (rng s))\<rparr>)"
proof -
  let ?xs = "fst (shuffle all_kinds (rng s))"
  let ?s1 = "s\<lparr>bag := butlast ?xs, rng := snd (shuffle all_kinds (rng s))\<rparr>"
  have len: "length ?xs = 7" by (rule shuffle_all_kinds_length)
  then have ne: "?xs \<noteq> []" by auto
  have l6: "length (bag ?s1) = 6" using len by simp
  have d6: "draw_n 6 ?s1 = Inr (rev (butlast ?xs), ?s1\<lparr>bag := []\<rparr>)"
    using draw_n_bag [of ?s1] l6 by simp
  have u: "draw_n 7 s = bind_err (get_next_shape s) (\<lambda>(k, s).
       bind_err (draw_n 6 s) (\<lambda>(ks, s). Inr (k # ks, s)))"
    using draw_n.simps(2) [of 6 s] by simp
  have "draw_n 7 s = Inr (last ?xs # rev (butlast ?xs), ?s1\<lparr>bag := []\<rparr>)"
    unfolding u using get_next_shape_empty [OF assms] d6 by (simp add: bind_err_def)
  moreover have "last ?xs # rev (butlast ?xs) = rev (butlast ?xs @ [last ?xs])"
    by simp
  moreover have "?s1\<lparr>bag := []\<rparr> = s\<lparr>rng := snd (shuffle all_kinds (rng s))\<rparr>"
    using assms by simp
  ultimately show ?thesis using ne by (simp del: rev_append)
qed

lemma draw_n_add:
  "draw_n (a + b) s =
     bind_err (draw_n a s) (\<lambda>(ks, s). bind_err (draw_n b s) (\<lambda>(ks', s). Inr (ks @ ks', s)))"
proof (induction a arbitrary: s)
  case 0
  show ?case by (cases "draw_n b s") (auto simp: bind_err_def)
next
  case (Suc a)
  show ?case
    by (cases "get_next_shape s") (auto simp: bind_err_def Suc split: sum.splits)
qed

lemma draw_n_total: "\<exists>ks s'. draw_n n s = Inr (ks, s') \<and> length ks = n"
proof (induction n arbitrary: s)
  case 0
  show ?case by simp
next
  case (Suc n)
  obtain k s1 where g: "get_next_shape s = Inr (k, s1)"
    by (cases "bag s = []") (auto simp: get_next_shape_empty get_next_shape_nonempty)
  from Suc [of s1] obtain ks s' where "draw_n n s1 = Inr (ks, s')" "length ks = n" by blast
  with g show ?case by (simp add: bind_err_def)
qed

lemma all_kinds_set: "set all_kinds = {k. k \<noteq> NoShape}"
proof -
  have "k \<in> set all_kinds \<longleftrightarrow> k \<noteq> NoShape" for k
    by (cases k) (simp_all add: all_kinds_def)
  then show ?thesis by blast
qed

lemma draw_multiple:
  assumes "bag s = []"
  shows "\<exists>ks s'. draw_n (7 * m) s = Inr (ks, s') \<and> bag s' = [] \<and> length ks = 7 * m \<and>
           (\<forall>k < m. mset (take 7 (drop (7 * k) ks)) = mset all_kinds)"
  using assms
proof (induction m arbitrary: s)
  case 0
  then show ?case by simp
next
  case (Suc m)
  let ?ks0 = "rev (fst (shuffle all_kinds (rng s)))"
  let ?s1 = "s\<lparr>rng := snd (shuffle all_kinds (rng s))\<rparr>"
  have d7: "draw_n 7 s = Inr (?ks0, ?s1)" using Suc.prems by (rule draw_7)
  have m0: "mset ?ks0 = mset all_kinds" by (simp add: shuffle_mset)
  have l0: "length ?ks0 = 7" by (simp add: shuffle_all_kinds_length)
  have "bag ?s1 = []" using Suc.prems by simp
  from Suc.IH [OF this] obtain ks s' where
    r: "draw_n (7 * m) ?s1 = Inr (ks, s')" "bag s' = []" "length ks = 7 * m"
       "\<forall>k < m. mset (take 7 (drop (7 * k) ks)) = mset all_kinds"
    by blast
  have "draw_n (7 + 7 * m) s = Inr (?ks0 @ ks, s')"
    using d7 r(1) by (simp add: draw_n_add bind_err_def)
  moreover have "mset (take 7 (drop (7 * k) (?ks0 @ ks))) = mset all_kinds" if "k < Suc m" for k
  proof (cases k)
    case 0
    then show ?thesis using l0 m0 by simp
  next
    case (Suc k')
    then have "k' < m" using that by simp
    then have "mset (take 7 (drop (7 * k') ks)) = mset all_kinds" using r(4) by blast
    moreover have "drop (7 * k) (?ks0 @ ks) = drop (7 * k') ks"
      using l0 Suc by simp
    ultimately show ?thesis by simp
  qed
  ultimately have "draw_n (7 * Suc m) s = Inr (?ks0 @ ks, s') \<and> bag s' = [] \<and>
      length (?ks0 @ ks) = 7 * Suc m \<and>
      (\<forall>k < Suc m. mset (take 7 (drop (7 * k) (?ks0 @ ks))) = mset all_kinds)"
    using r(2,3) l0 by simp
  then show ?case by blast
qed

text \<open>
  C9. From a refill boundary (an empty bag), any number of draws succeeds, and every
  window of 7 draws that starts at a multiple of 7 is a permutation of the seven kinds
  other than \<open>NoShape\<close>, without a duplicate.
\<close>

theorem bag_windows:
  assumes "bag s = []"
  shows "\<exists>ks s'. draw_n n s = Inr (ks, s') \<and> length ks = n \<and>
           (\<forall>k. 7 * k + 7 \<le> n \<longrightarrow>
              mset (take 7 (drop (7 * k) ks)) = mset all_kinds \<and>
              distinct (take 7 (drop (7 * k) ks)) \<and>
              set (take 7 (drop (7 * k) ks)) = {c. c \<noteq> NoShape})"
proof -
  let ?m = "n div 7"
  have n: "n = 7 * ?m + n mod 7" by simp
  from draw_multiple [OF assms, of ?m] obtain ks s1 where
    a: "draw_n (7 * ?m) s = Inr (ks, s1)" "length ks = 7 * ?m"
       "\<forall>k < ?m. mset (take 7 (drop (7 * k) ks)) = mset all_kinds"
    by blast
  from draw_n_total [of "n mod 7" s1] obtain ks' s' where
    b: "draw_n (n mod 7) s1 = Inr (ks', s')" "length ks' = n mod 7" by blast
  have d: "draw_n n s = Inr (ks @ ks', s')"
    using a(1) b(1) draw_n_add [of "7 * ?m" "n mod 7" s] by (simp add: bind_err_def)
  have w: "mset (take 7 (drop (7 * k) (ks @ ks'))) = mset all_kinds" if "7 * k + 7 \<le> n" for k
  proof -
    have k: "k < ?m" using that by (simp add: less_eq_div_iff_mult_less_eq mult.commute)
    then have "7 * k + 7 \<le> length ks" using a(2) by simp
    then have "take 7 (drop (7 * k) (ks @ ks')) = take 7 (drop (7 * k) ks)" by simp
    then show ?thesis using a(3) k by simp
  qed
  have "distinct (take 7 (drop (7 * k) (ks @ ks'))) \<and>
        set (take 7 (drop (7 * k) (ks @ ks'))) = {c. c \<noteq> NoShape}" if "7 * k + 7 \<le> n" for k
  proof -
    have da: "distinct all_kinds" by (simp add: all_kinds_def)
    have m: "mset (take 7 (drop (7 * k) (ks @ ks'))) = mset all_kinds" by (rule w [OF that])
    have "distinct (take 7 (drop (7 * k) (ks @ ks')))"
      using da mset_eq_imp_distinct_iff [OF m] by simp
    moreover have "set (take 7 (drop (7 * k) (ks @ ks'))) = set all_kinds"
      by (rule mset_eq_setD [OF m])
    ultimately show ?thesis by (simp add: all_kinds_set)
  qed
  with w have "draw_n n s = Inr (ks @ ks', s') \<and> length (ks @ ks') = n \<and>
      (\<forall>k. 7 * k + 7 \<le> n \<longrightarrow>
         mset (take 7 (drop (7 * k) (ks @ ks'))) = mset all_kinds \<and>
         distinct (take 7 (drop (7 * k) (ks @ ks'))) \<and>
         set (take 7 (drop (7 * k) (ks @ ks'))) = {c. c \<noteq> NoShape})"
    using d a(2) b(2) n by simp
  then show ?thesis by blast
qed


theorem bag_windows_witness:
  "bag (example_Board\<lparr>bag := []\<rparr>) = [] \<and>
   (\<exists>ks s'. draw_n 7 (example_Board\<lparr>bag := []\<rparr>) = Inr (ks, s') \<and> length ks = 7 \<and>
      (\<forall>k. 7 * k + 7 \<le> 7 \<longrightarrow>
         mset (take 7 (drop (7 * k) ks)) = mset all_kinds \<and>
         distinct (take 7 (drop (7 * k) ks)) \<and>
         set (take 7 (drop (7 * k) ks)) = {c. c \<noteq> NoShape})) \<and>
   (7::nat) * 0 + 7 \<le> 7"
  using bag_windows [of "example_Board\<lparr>bag := []\<rparr>" 7]
  by simp

subsection \<open>Loops over the grid\<close>

lemma for_each_pure:
  assumes "\<And>v s. v \<in> set vs \<Longrightarrow> P s \<Longrightarrow> f v s = Inr (g v s) \<and> P (g v s)" and "P s"
  shows "for_each f vs s = Inr (fold g vs s) \<and> P (fold g vs s)"
  using assms
proof (induction vs arbitrary: s)
  case Nil
  then show ?case by simp
next
  case (Cons v vs)
  have 1: "f v s = Inr (g v s)" and 2: "P (g v s)" using Cons.prems by auto
  have "for_each f vs (g v s) = Inr (fold g vs (g v s)) \<and> P (fold g vs (g v s))"
    by (rule Cons.IH) (use Cons.prems 2 in auto)
  then show ?case using 1 by (simp add: bind_err_def)
qed

lemma shape_at_nat:
  assumes "length b = 220" "x < 10" "y < 22"
  shows "shape_at b (int x) (int y) = Inr (b ! (y * 10 + x))"
proof -
  have "y * 10 + x < length b" using assms by simp
  from py_getitem_nat [OF this] show ?thesis by (simp add: shape_at_def board_width_def)
qed

lemma set_shape_at_nat:
  assumes "length b = 220" "x < 10" "y < 22"
  shows "set_shape_at (int x) (int y) c b = Inr (b[y * 10 + x := c])"
proof -
  have "y * 10 + x < length b" using assms by simp
  from py_setitem_nat [OF this] show ?thesis by (simp add: set_shape_at_def board_width_def)
qed

lemma count_row:
  assumes "length b = 220" "i < 22" "n \<le> 10"
  shows "for_each (count_cell b i) [0..<n] c
           = Inr (c + int (length (filter (\<lambda>j. b ! (i * 10 + j) \<noteq> NoShape) [0..<n])))"
  using assms(3)
proof (induction n arbitrary: c rule: nat.induct)
  case zero
  show ?case by simp
next
  case (Suc n)
  have step: "for_each f (xs @ [x]) s = bind_err (for_each f xs s) (f x)" for f :: "nat \<Rightarrow> int \<Rightarrow> error + int" and xs x s
    by (induction xs arbitrary: s) (auto simp: bind_err_def split: sum.splits)
  have n: "n < 10" using Suc.prems by simp
  have "count_cell b i n c' = Inr (if b ! (i * 10 + n) \<noteq> NoShape then c' + 1 else c')" for c'
    using shape_at_nat [OF assms(1) n assms(2)] by (simp add: count_cell_def bind_err_def)
  then show ?case using Suc.IH [of c] n by (simp add: step bind_err_def)
qed

lemma filter_length_all:
  "length (filter P xs) = length xs \<longleftrightarrow> list_all P xs"
  by (metis filter_id_conv length_filter_le Ball_set filter_True  length_filter_less not_less_iff_gr_or_eq)

lemma scan_row_eq:
  assumes "length b = 220" "i < 22"
  shows "scan_row b i rows = Inr (if row_full b i then rows @ [i] else rows)"
proof -
  have "for_each (count_cell b i) [0..<10] 0
      = Inr (int (length (filter (\<lambda>j. b ! (i * 10 + j) \<noteq> NoShape) [0..<10])))"
    using count_row [OF assms, of 10 0] by simp
  moreover have "length (filter (\<lambda>j. b ! (i * 10 + j) \<noteq> NoShape) [0..<10]) = 10 \<longleftrightarrow> row_full b i"
    using filter_length_all [of "\<lambda>j. b ! (i * 10 + j) \<noteq> NoShape" "[0..<10]"]
    by (simp add: row_full_def)
  ultimately show ?thesis by (simp add: scan_row_def bind_err_def board_width_def)
qed

lemma scan_rows:
  assumes "length b = 220" "\<forall>i \<in> set is. i < 22"
  shows "for_each (scan_row b) is rows = Inr (rows @ filter (row_full b) is)"
  using assms(2)
proof (induction "is" arbitrary: rows)
  case Nil
  show ?case by simp
next
  case (Cons i "is")
  then show ?case using scan_row_eq [OF assms(1), of i rows] by (simp add: bind_err_def)
qed

lemma full_rows_eq:
  "length b = 220 \<Longrightarrow> full_rows b = Inr (filter (row_full b) [0..<22])"
  using scan_rows [of b "[0..<22]" "[]"] by (simp add: full_rows_def BoardHeight_def)


lemma copy_cell_down_eq:
  assumes "length b = 220" "k < 21" "l < 10"
  shows "copy_cell_down k l b = Inr (b[k * 10 + l := b ! (Suc k * 10 + l)])"
proof -
  have "shape_at b (int l) (int k + 1) = Inr (b ! (Suc k * 10 + l))"
    using shape_at_nat [of b l "Suc k"] assms by (simp add: add.commute)
  moreover have "set_shape_at (int l) (int k) c b = Inr (b[k * 10 + l := c])" for c
    using assms by (intro set_shape_at_nat) simp_all
  ultimately show ?thesis by (simp add: copy_cell_down_def bind_err_def)
qed

lemma copy_row_fold_nth:
  assumes "length b = 220" "k < 21" "n \<le> 10"
  shows "length (fold (\<lambda>l b. b[k * 10 + l := b ! (Suc k * 10 + l)]) [0..<n] b) = 220 \<and>
         (\<forall>i < 220. fold (\<lambda>l b. b[k * 10 + l := b ! (Suc k * 10 + l)]) [0..<n] b ! i
            = (if k * 10 \<le> i \<and> i < k * 10 + n then b ! (i + 10) else b ! i))"
  using assms(3)
proof (induction n)
  case 0
  show ?case using assms(1) by auto
next
  case (Suc n)
  let ?g = "\<lambda>l b. b[k * 10 + l := b ! (Suc k * 10 + l)]"
  let ?c = "fold ?g [0..<n] b"
  have IH: "length ?c = 220" "\<And>i. i < 220 \<Longrightarrow> ?c ! i = (if k * 10 \<le> i \<and> i < k * 10 + n then b ! (i + 10) else b ! i)"
    using Suc by auto
  have f: "fold ?g [0..<Suc n] b = ?c[k * 10 + n := ?c ! (Suc k * 10 + n)]" by simp
  have r: "?c ! (Suc k * 10 + n) = b ! (k * 10 + n + 10)"
    using IH(2) [of "Suc k * 10 + n"] assms(2) Suc.prems by (simp add: ac_simps)
  show ?case
    unfolding f r using IH assms(2) Suc.prems
    by (auto simp: nth_list_update)
qed

lemma copy_row:
  assumes "length b = 220" "k < 21"
  shows "\<exists>b'. for_each (copy_cell_down k) [0..<10] b = Inr b' \<and> length b' = 220 \<and>
           (\<forall>i < 220. b' ! i = (if k * 10 \<le> i \<and> i < k * 10 + 10 then b ! (i + 10) else b ! i))"
proof -
  let ?g = "\<lambda>l b. b[k * 10 + l := b ! (Suc k * 10 + l)]"
  have "for_each (copy_cell_down k) [0..<10] b = Inr (fold ?g [0..<10] b) \<and>
        length (fold ?g [0..<10] b) = 220"
    by (rule for_each_pure [where P = "\<lambda>b. length b = 220"])
       (use assms in \<open>auto simp: copy_cell_down_eq\<close>)
  then show ?thesis using copy_row_fold_nth [OF assms, of 10] by simp
qed

lemma for_each_snoc:
  "for_each f (xs @ [x]) s = bind_err (for_each f xs s) (f x)"
  by (induction xs arbitrary: s) (auto simp: bind_err_def split: sum.splits)

lemma shift_rows:
  assumes "length b = 220" "m \<le> K" "K \<le> 21"
  shows "\<exists>b'. for_each (\<lambda>k. for_each (copy_cell_down k) [0..<10]) [m..<K] b = Inr b' \<and>
           length b' = 220 \<and>
           (\<forall>i < 220. b' ! i = (if m * 10 \<le> i \<and> i < K * 10 then b ! (i + 10) else b ! i))"
  using assms(2,3)
proof (induction K)
  case 0
  then show ?case using assms(1) by auto
next
  case (Suc K)
  show ?case
  proof (cases "m = Suc K")
    case True
    then show ?thesis using assms(1) by auto
  next
    case False
    then have mK: "m \<le> K" "K \<le> 21" "K < 21" using Suc.prems by simp_all
    from Suc.IH [OF mK(1,2)] obtain b1 where
      b1: "for_each (\<lambda>k. for_each (copy_cell_down k) [0..<10]) [m..<K] b = Inr b1"
          "length b1 = 220"
          "\<And>i. i < 220 \<Longrightarrow> b1 ! i = (if m * 10 \<le> i \<and> i < K * 10 then b ! (i + 10) else b ! i)"
      by blast
    from copy_row [OF b1(2) mK(3)] obtain b2 where
      b2: "for_each (copy_cell_down K) [0..<10] b1 = Inr b2" "length b2 = 220"
          "\<And>i. i < 220 \<Longrightarrow> b2 ! i = (if K * 10 \<le> i \<and> i < K * 10 + 10 then b1 ! (i + 10) else b1 ! i)"
      by blast
    have u: "[m..<Suc K] = [m..<K] @ [K]" using mK(1) by simp
    have "for_each (\<lambda>k. for_each (copy_cell_down k) [0..<10]) [m..<Suc K] b = Inr b2"
      unfolding u for_each_snoc using b1(1) b2(1) by (simp add: bind_err_def)
    moreover have "b2 ! i = (if m * 10 \<le> i \<and> i < Suc K * 10 then b ! (i + 10) else b ! i)"
      if "i < 220" for i
    proof (cases "K * 10 \<le> i \<and> i < K * 10 + 10")
      case True
      then have "i + 10 < 220" using mK(3) by simp
      then have "b1 ! (i + 10) = b ! (i + 10)" using b1(3) [of "i + 10"] True by simp
      then show ?thesis using b2(3) [OF that] True mK(1) 
        by (simp add: le_trans [OF mult_le_mono1 [OF mK(1)]])
    next
      case False
      then show ?thesis using b2(3) [OF that] b1(3) [OF that] by auto
    qed
    ultimately show ?thesis using b2(2) by blast
  qed
qed

lemma clear_top_fold_nth:
  assumes "length b = 220" "n \<le> 10"
  shows "length (fold (\<lambda>l (b :: Tetrominoe list). b[210 + l := NoShape]) [0..<n] b) = 220 \<and>
         (\<forall>i < 220. fold (\<lambda>l (b :: Tetrominoe list). b[210 + l := NoShape]) [0..<n] b ! i
            = (if 210 \<le> i \<and> i < 210 + n then NoShape else b ! i))"
  using assms(2)
proof (induction n)
  case 0
  show ?case using assms(1) by auto
next
  case (Suc n)
  then show ?case by (auto simp: nth_list_update)
qed

lemma clear_top:
  assumes "length b = 220"
  shows "\<exists>b'. for_each (\<lambda>l. set_shape_at (int l) (BoardHeight - 1) NoShape) [0..<10] b = Inr b' \<and>
           length b' = 220 \<and> (\<forall>i < 220. b' ! i = (if 210 \<le> i then NoShape else b ! i))"
proof -
  let ?g = "\<lambda>l (b :: Tetrominoe list). b[210 + l := NoShape]"
  have s: "set_shape_at (int l) (BoardHeight - 1) NoShape c = Inr (c[210 + l := NoShape])"
    if "length c = 220" "l < 10" for l c
    using set_shape_at_nat [OF that(1) that(2), of 21 NoShape]
    by (simp add: BoardHeight_def add.commute)
  have "for_each (\<lambda>l. set_shape_at (int l) (BoardHeight - 1) NoShape) [0..<10] b
          = Inr (fold ?g [0..<10] b) \<and> length (fold ?g [0..<10] b) = 220"
    by (rule for_each_pure [where P = "\<lambda>b. length b = 220"]) (use assms s in auto)
  then show ?thesis using clear_top_fold_nth [OF assms, of 10] by auto
qed

lemma remove_row_eq:
  assumes "length b = 220" "m < 22"
  shows "remove_row m b = Inr (delete_row m b)"
proof -
  from shift_rows [OF assms(1), of m 21] assms(2) obtain b1 where
    b1: "for_each (\<lambda>k. for_each (copy_cell_down k) [0..<10]) [m..<21] b = Inr b1"
        "length b1 = 220"
        "\<And>i. i < 220 \<Longrightarrow> b1 ! i = (if m * 10 \<le> i \<and> i < 210 then b ! (i + 10) else b ! i)"
    by auto
  from clear_top [OF b1(2)] obtain b2 where
    b2: "for_each (\<lambda>l. set_shape_at (int l) (BoardHeight - 1) NoShape) [0..<10] b1 = Inr b2"
        "length b2 = 220"
        "\<And>i. i < 220 \<Longrightarrow> b2 ! i = (if 210 \<le> i then NoShape else b1 ! i)"
    by blast
  have r: "remove_row m b = Inr b2"
    using b1(1) b2(1) by (simp add: remove_row_def bind_err_def board_width_def BoardHeight_def)
  have "b2 = delete_row m b"
  proof (rule nth_equalityI)
    show "length b2 = length (delete_row m b)"
      using assms b2(2) by (simp add: delete_row_def)
  next
    fix i assume "i < length b2"
    then have i: "i < 220" using b2(2) by simp
    show "b2 ! i = delete_row m b ! i"
      using i assms b1(3) [OF i] b2(3) [OF i]
      by (auto simp: delete_row_def nth_append add.commute)
  qed
  with r show ?thesis by simp
qed

lemma length_delete_row: "length b = 220 \<Longrightarrow> m < 22 \<Longrightarrow> length (delete_row m b) = 220"
  by (simp add: delete_row_def)


subsection \<open>Clearing lines and spawning\<close>

lemma remove_rows_eq:
  assumes "length b = 220" "\<forall>m \<in> set ms. m < 22"
  shows "for_each remove_row ms b = Inr (fold delete_row ms b) \<and> length (fold delete_row ms b) = 220"
  by (rule for_each_pure [where P = "\<lambda>b. length b = 220"])
     (use assms in \<open>auto simp: remove_row_eq length_delete_row\<close>)

lemma remove_full_lines_eq:
  assumes "length (board s) = 220"
  shows "remove_full_lines s =
     Inr (let rows = cleared_rows (board s); n = int (length rows);
              s1 = count_lines n (s\<lparr>board := fold delete_row (rev rows) (board s)\<rparr>)
          in if rows = [] then s
             else if goal s \<le> lines_to_goal s + n then level_up s1 else s1)"
proof -
  let ?rows = "cleared_rows (board s)"
  have f: "full_rows (board s) = Inr ?rows"
    using assms by (simp add: full_rows_eq cleared_rows_def)
  have "\<forall>m \<in> set (rev ?rows). m < 22" by (auto simp: cleared_rows_def)
  from remove_rows_eq [OF assms this]
  have r: "for_each remove_row (rev ?rows) (board s) = Inr (fold delete_row (rev ?rows) (board s))"
    by simp
  show ?thesis
    by (simp add: remove_full_lines_def f r bind_err_def Let_def emit_def update_def
        level_up_def count_lines_def)
qed

lemma get_next_shape_cases:
  obtains k b r where "get_next_shape s = Inr (k, s\<lparr>bag := b, rng := r\<rparr>)"
proof (cases "bag s = []")
  case True
  from get_next_shape_empty [OF this] show ?thesis using that by blast
next
  case False
  from get_next_shape_nonempty [OF this]
  have "get_next_shape s = Inr (last (bag s), s\<lparr>bag := butlast (bag s), rng := rng s\<rparr>)" by simp
  then show ?thesis using that by blast
qed

lemma new_piece_cases:
  assumes "length (board s) = 220"
  obtains k b r where
    "new_piece s =
       Inr (let s1 = (spawn (piece_shape (next_piece s)) s)
                       \<lparr>bag := b, rng := r, next_piece := set_shape k (next_piece s)\<rparr>
            in if fits (board s) (current_piece s1) 6 (cur_y s1)
               then s1\<lparr>repaints := repaints s + 1\<rparr> else game_over s1)"
proof -
  let ?s0 = "s\<lparr>current_piece := set_shape (piece_shape (next_piece s)) (current_piece s)\<rparr>"
  obtain k b r where g: "get_next_shape ?s0 = Inr (k, ?s0\<lparr>bag := b, rng := r\<rparr>)"
    by (rule get_next_shape_cases)
  have "new_piece s =
       Inr (let s1 = (spawn (piece_shape (next_piece s)) s)
                       \<lparr>bag := b, rng := r, next_piece := set_shape k (next_piece s)\<rparr>
            in if fits (board s) (current_piece s1) 6 (cur_y s1)
               then s1\<lparr>repaints := repaints s + 1\<rparr> else game_over s1)"
    unfolding new_piece_def Let_def g
    using assms
    by (simp add: bind_err_def try_move_eq spawn_def board_width_def BoardHeight_def
        game_over_def emit_def)
  then show ?thesis using that by blast
qed

subsection \<open>Line clears, game over and hold\<close>

lemma filter_single:
  assumes "R < n" "P R" "\<forall>i < n. i \<noteq> R \<longrightarrow> \<not> P i"
  shows "filter P [0..<n] = [R]"
proof -
  have "[0..<R + (n - R)] = [0..<R] @ [R..<R + (n - R)]"
    by (rule upt_add_eq_append) simp
  then have u: "[0..<n] = [0..<R] @ R # [Suc R..<n]"
    using assms(1) by (simp add: upt_conv_Cons)
  have "filter P [0..<R] = []" "filter P [Suc R..<n] = []"
    using assms(1,3) by (auto simp: filter_empty_conv)
  then show ?thesis unfolding u using assms(2) by simp
qed

lemma delete_row_nth:
  assumes "length b = 220" "R < 22" "x < 10" "y < 22"
  shows "delete_row R b ! (y * 10 + x) =
     (if y < R then b ! (y * 10 + x) else if y < 21 then b ! (Suc y * 10 + x) else NoShape)"
  using assms by (auto simp: delete_row_def nth_append ac_simps)

text \<open>
  C2. When row \<open>R\<close> is the only full row, \<open>remove_full_lines\<close> returns; it deletes
  exactly row \<open>R\<close>: the rows below keep their cells, every row above moves down by one,
  the top row is empty, and \<open>num_lines_removed\<close> grows by exactly 1.
\<close>

theorem clear_single_line:
  assumes "length (board s) = 220" and "R < 22" and "row_full (board s) R"
    and "\<forall>i < 22. i \<noteq> R \<longrightarrow> \<not> row_full (board s) i"
  shows "\<exists>s'. remove_full_lines s = Inr s' \<and>
           board s' = delete_row R (board s) \<and>
           length (board s') = 220 \<and>
           (\<forall>x < 10. \<forall>y < 22. board s' ! (y * 10 + x) =
              (if y < R then board s ! (y * 10 + x)
               else if y < 21 then board s ! (Suc y * 10 + x)
               else NoShape)) \<and>
           num_lines_removed s' = num_lines_removed s + 1"
proof -
  have c: "cleared_rows (board s) = [R]"
    unfolding cleared_rows_def using assms(2-4) by (rule filter_single)
  have "\<exists>s'. remove_full_lines s = Inr s' \<and> board s' = delete_row R (board s) \<and>
          num_lines_removed s' = num_lines_removed s + 1"
    by (simp add: remove_full_lines_eq [OF assms(1)] c Let_def count_lines_def level_up_def)
  then show ?thesis
    using assms(1,2) by (auto simp: delete_row_nth length_delete_row)
qed

text \<open>
  C4. With \<open>goal = 10\<close> and no goal reached yet, a line clear that brings
  \<open>lines_to_goal\<close> to the goal sets the goal to 15, the goals reached to 1, the count
  towards the goal to 0 and \<open>Speed\<close> to three quarters of its value, and restarts the
  timer with that value truncated. From \<open>goal = 15\<close> and one goal reached, the next such
  clear adds \<open>5 * 1\<close> to the goal, which makes 20, and the goals reached become 2.
\<close>

theorem leveling_first_and_second:
  assumes "length (board s) = 220" and "goal s = 10" and "num_goals_reached s = 0"
    and "cleared_rows (board s) \<noteq> []"
    and "goal s \<le> lines_to_goal s + int (length (cleared_rows (board s)))"
    and "length (board t) = 220" and "goal t = 15" and "num_goals_reached t = 1"
    and "cleared_rows (board t) \<noteq> []"
    and "goal t \<le> lines_to_goal t + int (length (cleared_rows (board t)))"
  shows "(\<exists>s'. remove_full_lines s = Inr s' \<and> goal s' = 15 \<and> num_goals_reached s' = 1 \<and>
            lines_to_goal s' = 0 \<and> Speed s' = Speed s * 3 / 4 \<and>
            timer s' = Some (of_int (py_int_of_float (Speed s')))) \<and>
         (\<exists>t'. remove_full_lines t = Inr t' \<and> goal t' = goal t + 5 * 1 \<and> goal t' = 20 \<and>
            num_goals_reached t' = 2 \<and> lines_to_goal t' = 0)"
proof -
  have "\<exists>s'. remove_full_lines s = Inr s' \<and> goal s' = 15 \<and> num_goals_reached s' = 1 \<and>
            lines_to_goal s' = 0 \<and> Speed s' = Speed s * 3 / 4 \<and>
            timer s' = Some (of_int (py_int_of_float (Speed s')))"
    using assms(2-5)
    by (simp add: remove_full_lines_eq [OF assms(1)] Let_def count_lines_def level_up_def)
  moreover have "\<exists>t'. remove_full_lines t = Inr t' \<and> goal t' = goal t + 5 * 1 \<and> goal t' = 20 \<and>
            num_goals_reached t' = 2 \<and> lines_to_goal t' = 0"
    using assms(7-10)
    by (simp add: remove_full_lines_eq [OF assms(6)] Let_def count_lines_def level_up_def)
  ultimately show ?thesis by blast
qed

lemma set_shape_fresh: "set_shape k p = set_shape k new_Shape"
  by (simp add: set_shape_def new_Shape_def)

lemma spawn_cells_inside:
  "(x, y) \<in> set (spawn_cells k) \<Longrightarrow> 0 \<le> x \<and> x < 10 \<and> 0 \<le> y \<and> y < 22"
  by (cases k)
    (auto simp: spawn_cells_def Let_def upt4 set_shape_def new_Shape_def shape_x_def shape_y_def min_y_def)

lemma fits_spawn:
  "fits (board s) (set_shape (piece_shape (next_piece s)) p) 6
     (21 + min_y (set_shape (piece_shape (next_piece s)) p)) \<longleftrightarrow> \<not> spawn_occupied s"
proof -
  let ?k = "piece_shape (next_piece s)"
  let ?q = "set_shape ?k new_Shape"
  have "fits (board s) ?q 6 (21 + min_y ?q)
      \<longleftrightarrow> (\<forall>(x, y) \<in> set (spawn_cells ?k). cell_free (board s) x y)"
    by (simp add: fits_def spawn_cells_def Let_def list_all_iff)
  also have "\<dots> \<longleftrightarrow> (\<forall>(x, y) \<in> set (spawn_cells ?k). board s ! nat (y * 10 + x) = NoShape)"
    using spawn_cells_inside [of _ _ ?k] by (auto simp: cell_free_def)
  also have "\<dots> \<longleftrightarrow> \<not> spawn_occupied s"
    by (auto simp: spawn_occupied_def list_ex_iff)
  finally show ?thesis by (simp add: set_shape_fresh [of ?k p])
qed

lemma game_over_inert:
  assumes "\<not> is_started s" "timer s = None"
  shows "for_each deliver evs s = Inr s"
proof (induction evs)
  case Nil
  show ?case by simp
next
  case (Cons ev evs)
  have "deliver ev s = Inr s"
    using assms by (cases ev) (simp_all add: tick_def keyPressEvent_def)
  then show ?case using Cons by (simp add: bind_err_def)
qed

text \<open>
  When a cell of the spawn position (column 6, row \<open>21 + min_y\<close>) is occupied,
  \<open>new_piece\<close> ends the game: the session is no longer started, the current piece is
  \<open>NoShape\<close>, the timer is stopped and one message, \<open>Game over\<close>, is emitted. From
  then on gravity ticks and key presses leave the state as it is.
\<close>

lemma spawn_collision_game_over:
  assumes "length (board s) = 220" and "spawn_occupied s"
  shows "\<exists>s'. new_piece s = Inr s' \<and>
           \<not> is_started s' \<and> piece_shape (current_piece s') = NoShape \<and> timer s' = None \<and>
           statusbar s' = statusbar s @ [''Game over''] \<and> board s' = board s \<and>
           (\<forall>evs. for_each deliver evs s' = Inr s')"
proof -
  obtain k b r where n: "new_piece s =
       Inr (let s1 = (spawn (piece_shape (next_piece s)) s)
                       \<lparr>bag := b, rng := r, next_piece := set_shape k (next_piece s)\<rparr>
            in if fits (board s) (current_piece s1) 6 (cur_y s1)
               then s1\<lparr>repaints := repaints s + 1\<rparr> else game_over s1)"
    using new_piece_cases [OF assms(1)] by blast
  let ?s1 = "(spawn (piece_shape (next_piece s)) s)
               \<lparr>bag := b, rng := r, next_piece := set_shape k (next_piece s)\<rparr>"
  have "\<not> fits (board s) (current_piece ?s1) 6 (cur_y ?s1)"
    using assms(2) fits_spawn [of s "current_piece s"] by (simp add: spawn_def)
  then have e: "new_piece s = Inr (game_over ?s1)" using n by (simp add: Let_def)
  have p: "\<not> is_started (game_over ?s1)" "timer (game_over ?s1) = None"
    "piece_shape (current_piece (game_over ?s1)) = NoShape"
    "statusbar (game_over ?s1) = statusbar s @ [''Game over'']"
    "board (game_over ?s1) = board s"
    by (simp_all add: game_over_def emit_def spawn_def set_shape_def)
  show ?thesis
    using e p game_over_inert [OF p(1,2)] by simp
qed


lemma set_shape_at_inside:
  assumes "length b = 220" "0 \<le> x" "x < 10" "0 \<le> y" "y < 22"
  shows "set_shape_at x y k b = Inr (b[nat (y * 10 + x) := k])"
proof -
  have "nat (y * 10 + x) < length b" using assms by simp
  from py_setitem_nat [OF this] show ?thesis
    using assms by (simp add: set_shape_at_def board_width_def)
qed

lemma write_piece:
  assumes "length (board s) = 220"
    and "fits (board s) (current_piece s) (cur_x s) (cur_y s)"
  shows "for_each (\<lambda>i b. set_shape_at (cur_x s + shape_x (current_piece s) i)
                            (cur_y s - shape_y (current_piece s) i)
                            (piece_shape (current_piece s)) b) [0..<4] (board s)
           = Inr (landed s) \<and> length (landed s) = 220"
proof -
  let ?x = "\<lambda>i. cur_x s + shape_x (current_piece s) i"
  let ?y = "\<lambda>i. cur_y s - shape_y (current_piece s) i"
  let ?k = "piece_shape (current_piece s)"
  have step: "set_shape_at (?x i) (?y i) ?k b = Inr (b[nat (?y i * 10 + ?x i) := ?k]) \<and>
              length (b[nat (?y i * 10 + ?x i) := ?k]) = 220"
    if "i \<in> set [0..<4]" "length b = 220" for i and b :: "Tetrominoe list"
  proof -
    have "cell_free (board s) (?x i) (?y i)"
      using assms(2) that(1) unfolding fits_def list_all_iff by blast
    then show ?thesis using that(2) by (simp add: cell_free_def set_shape_at_inside)
  qed
  show ?thesis
    unfolding landed_def
    by (rule for_each_pure [where P = "\<lambda>b. length b = 220"]) (use step assms(1) in auto)
qed

lemma finalize_piece_eq:
  assumes "length (board s) = 220"
    and "fits (board s) (current_piece s) (cur_x s) (cur_y s)"
  shows "finalize_piece s =
     bind_err (remove_full_lines (s\<lparr>finalize_timer := None, board := landed s\<rparr>)) (\<lambda>s.
       if \<not> is_waiting_after_line s
       then bind_err (new_piece (s\<lparr>is_landed := False\<rparr>)) (\<lambda>s. Inr (s\<lparr>hold_locked := False\<rparr>))
       else Inr (s\<lparr>is_landed := False\<rparr>))"
proof -
  have l: "landed (s\<lparr>finalize_timer := None\<rparr>) = landed s" by (simp add: landed_def)
  have "fits (board (s\<lparr>finalize_timer := None\<rparr>)) (current_piece (s\<lparr>finalize_timer := None\<rparr>))
          (cur_x (s\<lparr>finalize_timer := None\<rparr>)) (cur_y (s\<lparr>finalize_timer := None\<rparr>))"
    using assms(2) by simp
  from write_piece [OF _ this] assms(1) l
  have w: "for_each (\<lambda>i b. set_shape_at (cur_x s + shape_x (current_piece s) i)
                            (cur_y s - shape_y (current_piece s) i)
                            (piece_shape (current_piece s)) b) [0..<4] (board s)
           = Inr (landed s)" by simp
  show ?thesis
    by (simp add: finalize_piece_def Let_def w bind_err_def)
qed

lemma new_piece_keeps:
  assumes "length (board s) = 220"
  shows "\<exists>s'. new_piece s = Inr s' \<and> hold_locked s' = hold_locked s \<and> board s' = board s \<and>
           is_waiting_after_line s' = is_waiting_after_line s"
proof -
  obtain k b r where n: "new_piece s =
       Inr (let s1 = (spawn (piece_shape (next_piece s)) s)
                       \<lparr>bag := b, rng := r, next_piece := set_shape k (next_piece s)\<rparr>
            in if fits (board s) (current_piece s1) 6 (cur_y s1)
               then s1\<lparr>repaints := repaints s + 1\<rparr> else game_over s1)"
    using new_piece_cases [OF assms] by blast
  show ?thesis unfolding n by (simp add: Let_def spawn_def game_over_def emit_def)
qed

lemma remove_full_lines_cleared:
  assumes "length (board s) = 220" and "cleared_rows (board s) \<noteq> []"
  shows "\<exists>s'. remove_full_lines s = Inr s' \<and> is_waiting_after_line s' \<and>
           hold_locked s' = hold_locked s \<and> length (board s') = 220 \<and>
           (timer s \<noteq> None \<longrightarrow> timer s' \<noteq> None)"
proof -
  have "\<forall>m \<in> set (rev (cleared_rows (board s))). m < 22" by (auto simp: cleared_rows_def)
  from remove_rows_eq [OF assms(1) this]
  have "length (fold delete_row (rev (cleared_rows (board s))) (board s)) = 220" by simp
  then show ?thesis
    using assms(2)
    by (simp add: remove_full_lines_eq [OF assms(1)] Let_def count_lines_def level_up_def)
qed

lemma remove_full_lines_none:
  assumes "length (board s) = 220" and "cleared_rows (board s) = []"
  shows "remove_full_lines s = Inr s"
  using assms(2) by (simp add: remove_full_lines_eq [OF assms(1)] Let_def)

lemma finalize_piece_unlocks:
  assumes "length (board s) = 220"
    and "fits (board s) (current_piece s) (cur_x s) (cur_y s)"
    and "cleared_rows (landed s) = []" and "\<not> is_waiting_after_line s"
  shows "\<exists>s'. finalize_piece s = Inr s' \<and> \<not> hold_locked s'"
proof -
  let ?s0 = "s\<lparr>finalize_timer := None, board := landed s\<rparr>"
  have len: "length (board ?s0) = 220" using write_piece [OF assms(1,2)] by simp
  have r: "remove_full_lines ?s0 = Inr ?s0"
    using assms(3) by (intro remove_full_lines_none [OF len]) simp
  obtain s1 where "new_piece (?s0\<lparr>is_landed := False\<rparr>) = Inr s1"
    using new_piece_keeps [of "?s0\<lparr>is_landed := False\<rparr>"] len by auto
  then show ?thesis
    using assms(4) by (simp add: finalize_piece_eq [OF assms(1,2)] r bind_err_def)
qed

lemma hold_twice:
  assumes "hold_current_piece s = Inr s1"
  shows "hold_locked s1 \<and> hold_current_piece s1 = Inr s1"
proof (cases "hold_locked s")
  case True
  then show ?thesis using assms by (simp add: hold_current_piece_def)
next
  case False
  then obtain s0 where "s1 = update (s0\<lparr>hold_locked := True\<rparr>)"
    using assms by (auto simp: hold_current_piece_def bind_err_def split: sum.splits)
  then show ?thesis by (simp add: hold_current_piece_def update_def)
qed

text \<open>
  C5. A hold directly after a hold changes nothing (\<open>hold_twice\<close>), and a lock that
  clears no line releases the hold (\<open>finalize_piece_unlocks\<close>). A lock that clears a
  line does not: \<open>hold_locked\<close> is still set after the lock and after the tick that
  spawns the next piece, and a hold is then ignored.
\<close>

theorem hold_stays_locked_after_line_clear:
  assumes "length (board s) = 220"
    and "fits (board s) (current_piece s) (cur_x s) (cur_y s)"
    and "cleared_rows (landed s) \<noteq> []"
    and "hold_locked s" and "timer s \<noteq> None"
  shows "\<exists>s1 s2. finalize_piece s = Inr s1 \<and> hold_locked s1 \<and>
           tick s1 = Inr s2 \<and> \<not> is_waiting_after_line s2 \<and> hold_locked s2 \<and>
           hold_current_piece s2 = Inr s2"
proof -
  let ?s0 = "s\<lparr>finalize_timer := None, board := landed s\<rparr>"
  have len: "length (board ?s0) = 220" using write_piece [OF assms(1,2)] by simp
  have "cleared_rows (board ?s0) \<noteq> []" using assms(3) by simp
  from remove_full_lines_cleared [OF len this] obtain s' where
    r: "remove_full_lines ?s0 = Inr s'" "is_waiting_after_line s'" "hold_locked s'"
       "length (board s') = 220" "timer s' \<noteq> None"
    using assms(4,5) by auto
  let ?s1 = "s'\<lparr>is_landed := False\<rparr>"
  have f: "finalize_piece s = Inr ?s1"
    using r(1,2) by (simp add: finalize_piece_eq [OF assms(1,2)] bind_err_def)
  obtain s2 where
    n: "new_piece (?s1\<lparr>is_waiting_after_line := False\<rparr>) = Inr s2" "hold_locked s2"
       "\<not> is_waiting_after_line s2"
    using new_piece_keeps [of "?s1\<lparr>is_waiting_after_line := False\<rparr>"] r(3,4) by auto
  have t: "tick ?s1 = Inr s2"
    using r(2,5) n(1) by (auto simp: tick_def timerEvent_def)
  have "hold_current_piece s2 = Inr s2" using n(2) by (simp add: hold_current_piece_def)
  with f t n r(3) show ?thesis by simp
qed

lemma lock_Board_row0: "row_full (landed lock_Board) 0"
  by (simp add: row_full_def landed_def lock_Board_def example_Board_def upt4 upt_rec
      set_shape_def new_Shape_def shape_x_def shape_y_def nth_list_update nth_append)

theorem hold_stays_locked_after_line_clear_witness:
  "length (board lock_Board) = 220 \<and>
   fits (board lock_Board) (current_piece lock_Board) (cur_x lock_Board) (cur_y lock_Board) \<and>
   cleared_rows (landed lock_Board) \<noteq> [] \<and> hold_locked lock_Board \<and> timer lock_Board \<noteq> None \<and>
   (\<exists>s1 s2. finalize_piece lock_Board = Inr s1 \<and> hold_locked s1 \<and>
           tick s1 = Inr s2 \<and> \<not> is_waiting_after_line s2 \<and> hold_locked s2 \<and>
           hold_current_piece s2 = Inr s2)"
proof -
  have 1: "length (board lock_Board) = 220" by (simp add: lock_Board_def example_Board_def)
  have 2: "fits (board lock_Board) (current_piece lock_Board) (cur_x lock_Board) (cur_y lock_Board)"
    by (simp add: fits_def cell_free_def lock_Board_def example_Board_def upt4
      set_shape_def new_Shape_def shape_x_def shape_y_def nth_append)
  have "0 \<in> set (cleared_rows (landed lock_Board))"
    using lock_Board_row0 by (simp add: cleared_rows_def)
  then have 3: "cleared_rows (landed lock_Board) \<noteq> []" by auto
  have 4: "hold_locked lock_Board" "timer lock_Board \<noteq> None"
    by (simp_all add: lock_Board_def example_Board_def)
  show ?thesis
    using 1 2 3 4 hold_stays_locked_after_line_clear [OF 1 2 3 4] by simp
qed


lemma line_Board_rows:
  "row_full (board line_Board) 0" "\<forall>i < 22. i \<noteq> 0 \<longrightarrow> \<not> row_full (board line_Board) i"
proof -
  show "row_full (board line_Board) 0"
    by (simp add: row_full_def line_Board_def example_Board_def upt_rec nth_append)
  have "\<not> row_full (board line_Board) i" if "i \<noteq> 0" "i < 22" for i
  proof
    assume "row_full (board line_Board) i"
    then have "\<forall>j \<in> set [0..<10]. board line_Board ! (i * 10 + j) \<noteq> NoShape"
      by (simp add: row_full_def list_all_iff)
    then have "board line_Board ! (i * 10 + 1) \<noteq> NoShape"
      by (rule bspec) simp
    moreover have "i * 10 + 1 \<ge> 11" "i * 10 - 10 < 209" using that by simp_all
    ultimately show False
      by (simp add: line_Board_def example_Board_def nth_append nth_Cons')
  qed
  then show "\<forall>i < 22. i \<noteq> 0 \<longrightarrow> \<not> row_full (board line_Board) i" by blast
qed

lemma line_Board_cleared: "cleared_rows (board line_Board) = [0]"
  unfolding cleared_rows_def by (rule filter_single) (use line_Board_rows in auto)

theorem clear_single_line_witness:
  "length (board line_Board) = 220 \<and> (0::nat) < 22 \<and> row_full (board line_Board) 0 \<and>
   cleared_rows (board line_Board) = [0] \<and>
   (\<exists>s'. remove_full_lines line_Board = Inr s' \<and>
      board s' = TShape # replicate 219 NoShape \<and>
      num_lines_removed s' = 1)"
proof -
  have 1: "length (board line_Board) = 220" by (simp add: line_Board_def example_Board_def)
  have 2: "(0::nat) < 22" by simp
  have d: "delete_row 0 (board line_Board) = TShape # replicate 219 NoShape"
    by (simp add: delete_row_def line_Board_def example_Board_def flip: replicate_add)
  have n: "num_lines_removed line_Board = 0" by (simp add: line_Board_def example_Board_def)
  show ?thesis
    using 1 line_Board_rows(1) line_Board_cleared
      clear_single_line [OF 1 2 line_Board_rows] d n by auto
qed

theorem leveling_first_and_second_witness:
  "(let s = line_Board;
        t = line_Board\<lparr>goal := 15, num_goals_reached := 1, lines_to_goal := 14, Speed := 225\<rparr>
    in length (board s) = 220 \<and> goal s = 10 \<and> num_goals_reached s = 0 \<and>
       cleared_rows (board s) \<noteq> [] \<and>
       goal s \<le> lines_to_goal s + int (length (cleared_rows (board s))) \<and>
       length (board t) = 220 \<and> goal t = 15 \<and> num_goals_reached t = 1 \<and>
       cleared_rows (board t) \<noteq> [] \<and>
       goal t \<le> lines_to_goal t + int (length (cleared_rows (board t))) \<and>
       (\<exists>s'. remove_full_lines s = Inr s' \<and> goal s' = 15 \<and> num_goals_reached s' = 1 \<and>
            lines_to_goal s' = 0 \<and> Speed s' = 225 \<and> timer s' = Some 225) \<and>
       (\<exists>t'. remove_full_lines t = Inr t' \<and> goal t' = 20 \<and> num_goals_reached t' = 2 \<and>
            lines_to_goal t' = 0))"
proof -
  let ?s = line_Board
  let ?t = "line_Board\<lparr>goal := 15, num_goals_reached := 1, lines_to_goal := 14, Speed := 225\<rparr>"
  have s: "length (board ?s) = 220" "goal ?s = 10" "num_goals_reached ?s = 0"
    "cleared_rows (board ?s) \<noteq> []"
    "goal ?s \<le> lines_to_goal ?s + int (length (cleared_rows (board ?s)))"
    by (simp_all add: line_Board_cleared) (simp_all add: line_Board_def example_Board_def)
  have t: "length (board ?t) = 220" "goal ?t = 15" "num_goals_reached ?t = 1"
    "cleared_rows (board ?t) \<noteq> []"
    "goal ?t \<le> lines_to_goal ?t + int (length (cleared_rows (board ?t)))"
    by (simp_all add: line_Board_cleared) (simp_all add: line_Board_def example_Board_def)
  have v: "Speed ?s = 300" by (simp add: line_Board_def example_Board_def)
  have "py_int_of_float 225 = 225" by (simp add: py_int_of_float_def)
  then show ?thesis
    unfolding Let_def
    using s t leveling_first_and_second [OF s t] v by auto
qed

lemma spawn_collision_game_over_example:
  "length (board blocked_Board) = 220 \<and> spawn_occupied blocked_Board \<and>
   (\<exists>s'. new_piece blocked_Board = Inr s' \<and>
      \<not> is_started s' \<and> piece_shape (current_piece s') = NoShape \<and> timer s' = None \<and>
      statusbar s' = [''Game over''] \<and> board s' = board blocked_Board \<and>
      (\<forall>evs. for_each deliver evs s' = Inr s'))"
proof -
  have 1: "length (board blocked_Board) = 220" by (simp add: blocked_Board_def example_Board_def)
  have 2: "spawn_occupied blocked_Board"
    by (simp add: spawn_occupied_def spawn_cells_def blocked_Board_def example_Board_def
        Let_def upt4 set_shape_def new_Shape_def shape_x_def shape_y_def min_y_def)
  have "statusbar blocked_Board = []" by (simp add: blocked_Board_def example_Board_def)
  then show ?thesis
    using 1 2 spawn_collision_game_over [OF 1 2] by simp
qed

subsection \<open>The join code: base64 and decimal strings\<close>

lemma b64_alphabet_length: "length b64_alphabet = 64"
  by (simp add: b64_alphabet_def)

lemma b64_alphabet_distinct: "distinct b64_alphabet"
  by (simp add: b64_alphabet_def)

lemma index_of_nth: "distinct xs \<Longrightarrow> i < length xs \<Longrightarrow> index_of (xs ! i) xs = Some i"
proof (induction xs arbitrary: i)
  case Nil
  then show ?case by simp
next
  case (Cons x xs)
  then show ?case by (cases i) auto
qed

lemma index_of_Some: "index_of c xs = Some i \<Longrightarrow> i < length xs \<and> xs ! i = c"
  by (induction xs arbitrary: i) (auto split: if_splits)

lemma index_of_None: "index_of c xs = None \<longleftrightarrow> c \<notin> set xs"
  by (induction xs) auto

lemma table_a2b_b2a: "v < 64 \<Longrightarrow> table_a2b (table_b2a v) = Some v"
  by (simp add: table_a2b_def table_b2a_def index_of_nth b64_alphabet_distinct b64_alphabet_length)

lemma table_b2a_in: "v < 64 \<Longrightarrow> table_b2a v \<in> set b64_alphabet"
  by (simp add: table_b2a_def b64_alphabet_length)

lemma b64_alphabet_ascii: "c \<in> set b64_alphabet \<Longrightarrow> (of_char c :: nat) < 128 \<and> c \<noteq> CHR ''=''"
  by (auto simp: b64_alphabet_def)

lemma table_b2a_plain:
  "v < 64 \<Longrightarrow> table_b2a v \<noteq> CHR ''='' \<and> \<not> (128 \<le> (of_char (table_b2a v) :: nat))"
  using b64_alphabet_ascii [OF table_b2a_in] by fastforce

lemma b64_bits_1:
  fixes a b :: nat
  assumes "a < 256" "b < 256"
  shows "(a div 4 * 4 + (a mod 4 * 16 + b div 16) div 16) mod 256 = a"
proof -
  have "b div 16 < 16" using assms(2) by simp
  then have "(a mod 4 * 16 + b div 16) div 16 = a mod 4" by simp
  then show ?thesis using assms(1) by simp
qed

lemma b64_bits_2:
  fixes a b c :: nat
  assumes "b < 256" "c < 256"
  shows "((a mod 4 * 16 + b div 16) mod 16 * 16 + (b mod 16 * 4 + c div 64) div 4) mod 256 = b"
proof -
  have "b div 16 < 16" "c div 64 < 4" using assms by simp_all
  then have "(a mod 4 * 16 + b div 16) mod 16 = b div 16" "(b mod 16 * 4 + c div 64) div 4 = b mod 16"
    by simp_all
  then show ?thesis using assms(1) by simp
qed

lemma b64_bits_3:
  fixes b c :: nat
  assumes "c < 256"
  shows "((b mod 16 * 4 + c div 64) mod 4 * 64 + c mod 64) mod 256 = c"
proof -
  have "c div 64 < 4" using assms by simp
  then have "(b mod 16 * 4 + c div 64) mod 4 = c div 64" by simp
  then show ?thesis using assms(1) by simp
qed

lemma a2b_base64_group:
  assumes "a < 256" "b < 256" "c < 256"
  shows "a2b_base64 (table_b2a (a div 4) # table_b2a (a mod 4 * 16 + b div 16) #
                     table_b2a (b mod 16 * 4 + c div 64) # table_b2a (c mod 64) # cs) 0 l p out
           = a2b_base64 cs 0 0 0 (out @ [a, b, c])"
proof -
  have r: "a div 4 < 64" "a mod 4 * 16 + b div 16 < 64" "b mod 16 * 4 + c div 64 < 64" "c mod 64 < 64"
    using assms by simp_all
  show ?thesis
    using r b64_bits_1 [OF assms(1,2)] b64_bits_2 [OF assms(2,3), of a] b64_bits_3 [OF assms(3), of b]
    by (simp add: table_a2b_b2a table_b2a_plain)
qed

lemma b64_six_bytes:
  assumes "list_all (\<lambda>v. v < 256) [b0, b1, b2, b3, b4, b5]"
  shows "b64decode (b64encode [b0, b1, b2, b3, b4, b5]) = Inr [b0, b1, b2, b3, b4, b5]"
    and "length (b64encode [b0, b1, b2, b3, b4, b5]) = 8"
    and "CHR ''='' \<notin> set (b64encode [b0, b1, b2, b3, b4, b5])"
proof -
  have v: "b0 < 256" "b1 < 256" "b2 < 256" "b3 < 256" "b4 < 256" "b5 < 256"
    using assms by simp_all
  have r: "b0 div 4 < 64" "b0 mod 4 * 16 + b1 div 16 < 64" "b1 mod 16 * 4 + b2 div 64 < 64"
    "b2 mod 64 < 64" "b3 div 4 < 64" "b3 mod 4 * 16 + b4 div 16 < 64"
    "b4 mod 16 * 4 + b5 div 64 < 64" "b5 mod 64 < 64"
    using v by simp_all
  have "a2b_base64 (b64encode [b0, b1, b2, b3, b4, b5]) 0 0 0 [] = Inr [b0, b1, b2, b3, b4, b5]"
    using a2b_base64_group [OF v(1-3)] a2b_base64_group [OF v(4-6)] by simp
  moreover have "\<not> list_ex (\<lambda>c. (of_char c :: nat) \<ge> 128) (b64encode [b0, b1, b2, b3, b4, b5])"
    using r by (simp add: table_b2a_plain)
  ultimately show "b64decode (b64encode [b0, b1, b2, b3, b4, b5]) = Inr [b0, b1, b2, b3, b4, b5]"
    by (simp only: b64decode_def if_False)
  show "length (b64encode [b0, b1, b2, b3, b4, b5]) = 8" by simp
  show "CHR ''='' \<notin> set (b64encode [b0, b1, b2, b3, b4, b5])"
    using r table_b2a_plain by (simp add: eq_commute [of "CHR ''=''"])
qed

lemma digit_char_props:
  assumes "d < 10"
  shows "is_digit (digit_char d)" "of_char (digit_char d) - 48 = d"
    "digit_char d \<noteq> CHR ''.''" "\<not> is_space (digit_char d)"
    "digit_char d \<noteq> CHR ''-''" "digit_char d \<noteq> CHR ''+''" "digit_char d \<noteq> CHR ''_''"
proof -
  from assms have "d \<in> {0, 1, 2, 3, 4, 5, 6, 7, 8, 9}" by auto
  then show "is_digit (digit_char d)" "of_char (digit_char d) - 48 = d"
    "digit_char d \<noteq> CHR ''.''" "\<not> is_space (digit_char d)"
    "digit_char d \<noteq> CHR ''-''" "digit_char d \<noteq> CHR ''+''" "digit_char d \<noteq> CHR ''_''"
    by (auto simp: digit_char_def is_digit_def is_space_def)
qed

lemma str_nat_digits: "list_all is_digit (str_nat n) \<and> str_nat n \<noteq> []"
proof (induction n rule: str_nat.induct)
  case (1 n)
  show ?case
  proof (cases "n < 10")
    case True
    then show ?thesis by (simp add: str_nat.simps [of n] digit_char_props)
  next
    case False
    then show ?thesis using 1 by (simp add: str_nat.simps [of n] digit_char_props)
  qed
qed

lemma digit_not_space: "is_digit c \<Longrightarrow> \<not> is_space c \<and> c \<noteq> CHR ''_'' \<and> c \<noteq> CHR ''.'' \<and> c \<noteq> CHR ''-'' \<and> c \<noteq> CHR ''+''"
  by (auto simp: is_digit_def is_space_def)

lemma digits_ok_all: "xs \<noteq> [] \<Longrightarrow> list_all is_digit xs \<Longrightarrow> digits_ok xs"
  by (induction xs rule: digits_ok.induct) (auto dest: digit_not_space)

lemma digits_value_snoc:
  "is_digit c \<Longrightarrow> digits_value (xs @ [c]) = 10 * digits_value xs + (of_char c - 48)"
  by (simp add: digits_value_def)

lemma digits_value_str_nat: "digits_value (str_nat n) = n"
proof (induction n rule: str_nat.induct)
  case (1 n)
  show ?case
  proof (cases "n < 10")
    case True
    then show ?thesis
      by (simp add: str_nat.simps [of n] digits_value_def digit_char_props)
  next
    case False
    then have "n mod 10 < 10" by simp
    then show ?thesis
      using False 1 by (simp add: str_nat.simps [of n] digits_value_snoc digit_char_props)
  qed
qed

lemma dropWhile_space_digits: "list_all is_digit xs \<Longrightarrow> dropWhile is_space xs = xs"
  by (cases xs) (auto dest: digit_not_space)

lemma py_int_digits:
  assumes "xs \<noteq> []" "list_all is_digit xs" "length xs \<le> 4300"
  shows "py_int xs = Inr (int (digits_value xs))"
proof -
  have h: "hd xs \<noteq> CHR ''-''" "hd xs \<noteq> CHR ''+''"
    using assms(1,2) by (cases xs; auto dest: digit_not_space)+
  have r: "list_all is_digit (rev xs)" using assms(2) by (simp add: list_all_iff)
  have f: "filter is_digit xs = xs" using assms(2) by (simp add: list_all_iff)
  show ?thesis
    using assms h
    by (simp add: py_int_def Let_def dropWhile_space_digits dropWhile_space_digits [OF r]
        digits_ok_all f)
qed

lemma str_nat_length: "n < 256 \<Longrightarrow> length (str_nat n) \<le> 3"
  by (simp add: str_nat.simps [of n] str_nat.simps [of "n div 10"]
      str_nat.simps [of "n div 10 div 10"])

lemma py_int_str_nat: "n < 256 \<Longrightarrow> py_int (str_nat n) = Inr (int n)"
  using py_int_digits [of "str_nat n"] str_nat_digits [of n] str_nat_length [of n]
  by (simp add: digits_value_str_nat)

lemma str_nat_no_dot: "CHR ''.'' \<notin> set (str_nat n)"
  using str_nat_digits [of n] by (auto simp: list_all_iff dest: digit_not_space)

lemma split_on_nonempty: "split_on c xs \<noteq> []"
  by (induction xs) (auto split: list.splits)

lemma split_on_none: "c \<notin> set p \<Longrightarrow> split_on c p = [p]"
  by (induction p) auto

lemma split_on_append: "c \<notin> set p \<Longrightarrow> split_on c (p @ c # rest) = p # split_on c rest"
  by (induction p) (auto split: list.splits)

lemma split_dotted_quad:
  "split_on CHR ''.'' (dotted_quad a b c d) = [str_nat a, str_nat b, str_nat c, str_nat d]"
  by (simp add: dotted_quad_def split_on_append split_on_none str_nat_no_dot)

lemma str_int_nat: "str_int (int n) = str_nat n"
  by (simp add: str_int_def)

text \<open>
  C7. For four octets and a port in \<open>[0, 65535]\<close>, encoding the dotted quad and the
  port gives a token of 8 characters without padding; the token decodes to the 6 bytes
  made of the four octets in order and the port, high byte first, and
  \<open>base64_to_ipv4_port\<close> returns the dotted quad and the port that went in.
\<close>

theorem join_code_roundtrip:
  assumes "a < 256" and "b < 256" and "c < 256" and "d < 256"
    and "0 \<le> port" and "port \<le> 65535"
  shows "\<exists>token. ipv4_port_to_base64 (dotted_quad a b c d) port = Inr token \<and>
           length token = 8 \<and> CHR ''='' \<notin> set token \<and>
           b64decode token = Inr [a, b, c, d, nat port div 256, nat port mod 256] \<and>
           base64_to_ipv4_port token = Inr (dotted_quad a b c d, port)"
proof -
  let ?bs = "[a, b, c, d, nat port div 256, nat port mod 256]"
  have p: "nat port div 256 < 256" "nat port mod 256 < 256" using assms(5,6) by simp_all
  have e: "ipv4_port_to_base64 (dotted_quad a b c d) port = Inr (b64encode ?bs)"
    using assms
    by (simp add: ipv4_port_to_base64_def split_dotted_quad py_getitem_def py_index_def
        bind_err_def py_int_str_nat struct_pack_BBBB_def struct_pack_H_def
        del: b64encode.simps)
  have v: "list_all (\<lambda>v. v < 256) ?bs" using assms(1-4) p by simp
  note six = b64_six_bytes [OF v]
  have "int (nat port div 256) * 256 + int (nat port mod 256)
      = int (nat port div 256 * 256 + nat port mod 256)"
    by (simp only: of_nat_add of_nat_mult of_nat_numeral)
  also have "\<dots> = int (nat port)" by (simp only: div_mult_mod_eq)
  also have "\<dots> = port" using assms(5) by simp
  finally have k: "int (nat port div 256) * 256 + int (nat port mod 256) = port" .
  have "base64_to_ipv4_port (b64encode ?bs) = Inr (dotted_quad a b c d, port)"
    by (simp add: base64_to_ipv4_port_def six(1) bind_err_def struct_unpack_BBBB_def
        struct_unpack_H_def dotted_quad_def str_int_nat k del: b64encode.simps)
  with e six show ?thesis by (simp del: b64encode.simps)
qed

theorem join_code_roundtrip_witness:
  "(192::nat) < 256 \<and> (168::nat) < 256 \<and> (1::nat) < 256 \<and> (0::int) \<le> 4097 \<and> (4097::int) \<le> 65535 \<and>
   dotted_quad 192 168 1 1 = ''192.168.1.1'' \<and>
   ipv4_port_to_base64 ''192.168.1.1'' 4097 = Inr ''wKgBARAB'' \<and>
   (\<exists>token. ipv4_port_to_base64 (dotted_quad 192 168 1 1) 4097 = Inr token \<and>
           length token = 8 \<and> CHR ''='' \<notin> set token \<and>
           b64decode token = Inr [192, 168, 1, 1, 16, 1] \<and>
           base64_to_ipv4_port token = Inr (''192.168.1.1'', 4097))"
proof -
  have d: "dotted_quad 192 168 1 1 = ''192.168.1.1''"
    by (simp add: dotted_quad_def str_nat.simps digit_char_def)
  have e: "ipv4_port_to_base64 ''192.168.1.1'' 4097 = Inr ''wKgBARAB''"
    by (simp add: ipv4_port_to_base64_def py_getitem_def py_index_def bind_err_def py_int_def
        is_space_def is_digit_def digits_value_def struct_pack_BBBB_def struct_pack_H_def
        table_b2a_def b64_alphabet_def)
  show ?thesis
    using d e join_code_roundtrip [of 192 168 1 1 4097] by simp
qed










subsection \<open>Key repeats after the game is over\<close>

lemma write_piece_inside:
  assumes "length (board s) = 220"
    and "list_all (\<lambda>i. inside (cur_x s + shape_x (current_piece s) i)
                          (cur_y s - shape_y (current_piece s) i)) [0..<4]"
  shows "for_each (\<lambda>i b. set_shape_at (cur_x s + shape_x (current_piece s) i)
                            (cur_y s - shape_y (current_piece s) i)
                            (piece_shape (current_piece s)) b) [0..<4] (board s)
           = Inr (landed s) \<and> length (landed s) = 220"
proof -
  let ?x = "\<lambda>i. cur_x s + shape_x (current_piece s) i"
  let ?y = "\<lambda>i. cur_y s - shape_y (current_piece s) i"
  let ?k = "piece_shape (current_piece s)"
  have step: "set_shape_at (?x i) (?y i) ?k b = Inr (b[nat (?y i * 10 + ?x i) := ?k]) \<and>
              length (b[nat (?y i * 10 + ?x i) := ?k]) = 220"
    if "i \<in> set [0..<4]" "length b = 220" for i and b :: "Tetrominoe list"
  proof -
    have "inside (?x i) (?y i)"
      using assms(2) that(1) unfolding list_all_iff by blast
    then show ?thesis using that(2) by (simp add: inside_def set_shape_at_inside)
  qed
  show ?thesis
    unfolding landed_def
    by (rule for_each_pure [where P = "\<lambda>b. length b = 220"]) (use step assms(1) in auto)
qed

lemma finalize_piece_inside:
  assumes "length (board s) = 220"
    and "list_all (\<lambda>i. inside (cur_x s + shape_x (current_piece s) i)
                          (cur_y s - shape_y (current_piece s) i)) [0..<4]"
  shows "finalize_piece s =
     bind_err (remove_full_lines (s\<lparr>finalize_timer := None, board := landed s\<rparr>)) (\<lambda>s.
       if \<not> is_waiting_after_line s
       then bind_err (new_piece (s\<lparr>is_landed := False\<rparr>)) (\<lambda>s. Inr (s\<lparr>hold_locked := False\<rparr>))
       else Inr (s\<lparr>is_landed := False\<rparr>))"
proof -
  let ?s = "s\<lparr>finalize_timer := None\<rparr>"
  have l: "landed ?s = landed s" by (simp add: landed_def)
  have "list_all (\<lambda>i. inside (cur_x ?s + shape_x (current_piece ?s) i)
                          (cur_y ?s - shape_y (current_piece ?s) i)) [0..<4]"
    using assms(2) by simp
  from write_piece_inside [OF _ this] assms(1) l
  have w: "for_each (\<lambda>i b. set_shape_at (cur_x s + shape_x (current_piece s) i)
                            (cur_y s - shape_y (current_piece s) i)
                            (piece_shape (current_piece s)) b) [0..<4] (board s)
           = Inr (landed s)" by simp
  show ?thesis
    by (simp add: finalize_piece_def Let_def w bind_err_def)
qed

text \<open>A lock, and a spawn, add to the number of repaints and messages.\<close>

lemma new_piece_grows:
  assumes "length (board s) = 220"
  shows "\<exists>s'. new_piece s = Inr s' \<and>
           repaints s' + length (statusbar s') = Suc (repaints s + length (statusbar s))"
proof -
  obtain k b r where n: "new_piece s =
       Inr (let s1 = (spawn (piece_shape (next_piece s)) s)
                       \<lparr>bag := b, rng := r, next_piece := set_shape k (next_piece s)\<rparr>
            in if fits (board s) (current_piece s1) 6 (cur_y s1)
               then s1\<lparr>repaints := repaints s + 1\<rparr> else game_over s1)"
    using new_piece_cases [OF assms] by blast
  show ?thesis unfolding n by (simp add: Let_def spawn_def game_over_def emit_def)
qed

lemma finalize_piece_grows:
  assumes "length (board s) = 220"
    and "list_all (\<lambda>i. inside (cur_x s + shape_x (current_piece s) i)
                          (cur_y s - shape_y (current_piece s) i)) [0..<4]"
    and "\<not> is_waiting_after_line s"
  shows "\<exists>s'. finalize_piece s = Inr s' \<and>
           repaints s' + length (statusbar s') > repaints s + length (statusbar s)"
proof -
  let ?s0 = "s\<lparr>finalize_timer := None, board := landed s\<rparr>"
  have len: "length (board ?s0) = 220" using write_piece_inside [OF assms(1,2)] by simp
  show ?thesis
  proof (cases "cleared_rows (landed s) = []")
    case True
    have r: "remove_full_lines ?s0 = Inr ?s0"
      using True by (intro remove_full_lines_none [OF len]) simp
    obtain s1 where s1: "new_piece (?s0\<lparr>is_landed := False\<rparr>) = Inr s1"
      "repaints s1 + length (statusbar s1)
         = Suc (repaints (?s0\<lparr>is_landed := False\<rparr>) + length (statusbar (?s0\<lparr>is_landed := False\<rparr>)))"
      using new_piece_grows [of "?s0\<lparr>is_landed := False\<rparr>"] len by auto
    have "finalize_piece s = Inr (s1\<lparr>hold_locked := False\<rparr>)"
      using assms(3) s1(1) by (simp add: finalize_piece_inside [OF assms(1,2)] r bind_err_def)
    then show ?thesis using s1(2) by simp
  next
    case False
    have "\<forall>m \<in> set (rev (cleared_rows (landed s))). m < 22" by (auto simp: cleared_rows_def)
    have "\<exists>s'. remove_full_lines ?s0 = Inr s' \<and> is_waiting_after_line s' \<and>
            repaints s' + length (statusbar s') > repaints s + length (statusbar s)"
      using False
      by (simp add: remove_full_lines_eq [OF len] Let_def count_lines_def level_up_def)
    then obtain s' where "remove_full_lines ?s0 = Inr s'" "is_waiting_after_line s'"
      "repaints s' + length (statusbar s') > repaints s + length (statusbar s)" by blast
    then show ?thesis
      by (simp add: finalize_piece_inside [OF assms(1,2)] bind_err_def)
  qed
qed

lemma min_y_table: "min_y (set_shape k p) = -1 \<or> min_y (set_shape k p) = 0"
  by (cases k) (simp_all add: min_y_def set_shape_def upt4)

lemma empty_piece_cells:
  "i < 4 \<Longrightarrow> shape_x (set_shape NoShape p) i = 0 \<and> shape_y (set_shape NoShape p) i = 0"
  by (auto simp: shape_x_def shape_y_def set_shape_def upt4 nth_Cons' )

lemma fits_empty_piece:
  "fits b (set_shape NoShape p) x y \<longleftrightarrow> cell_free b x y"
  by (simp add: fits_def upt4 shape_x_def shape_y_def set_shape_def)

lemma spawn_collision_state:
  assumes "length (board s) = 220" and "spawn_occupied s"
  shows "\<exists>s1. new_piece s = Inr s1 \<and> \<not> is_started s1 \<and> timer s1 = None \<and>
           current_piece s1 = set_shape NoShape new_Shape \<and>
           statusbar s1 = statusbar s @ [''Game over''] \<and> board s1 = board s \<and>
           cur_x s1 = 6 \<and> (cur_y s1 = 20 \<or> cur_y s1 = 21) \<and>
           down_key_timer s1 = down_key_timer s \<and>
           is_waiting_after_line s1 = is_waiting_after_line s \<and>
           repaints s1 = repaints s"
proof -
  obtain k b r where n: "new_piece s =
       Inr (let s1 = (spawn (piece_shape (next_piece s)) s)
                       \<lparr>bag := b, rng := r, next_piece := set_shape k (next_piece s)\<rparr>
            in if fits (board s) (current_piece s1) 6 (cur_y s1)
               then s1\<lparr>repaints := repaints s + 1\<rparr> else game_over s1)"
    using new_piece_cases [OF assms(1)] by blast
  let ?s1 = "(spawn (piece_shape (next_piece s)) s)
               \<lparr>bag := b, rng := r, next_piece := set_shape k (next_piece s)\<rparr>"
  have "\<not> fits (board s) (current_piece ?s1) 6 (cur_y ?s1)"
    using assms(2) fits_spawn [of s "current_piece s"] by (simp add: spawn_def)
  then have e: "new_piece s = Inr (game_over ?s1)" using n by (simp add: Let_def)
  have "set_shape NoShape (current_piece ?s1) = set_shape NoShape new_Shape"
    by (rule set_shape_fresh)
  then show ?thesis
    using e min_y_table [of "piece_shape (next_piece s)" "current_piece s"]
    by (auto simp: game_over_def emit_def spawn_def)
qed

text \<open>
  C6. A spawn on occupied cells ends the game and emits one \<open>Game over\<close>, but the
  state it leaves is not inert: while the repeat timer of the Down key runs, its next
  timeout calls \<open>move_down\<close>, which is not guarded, and the state changes. When the
  cell below is free the empty piece moves down; when it is not, the empty piece is
  locked, which writes \<open>NoShape\<close> into the grid at its position, and, if no row is
  full and the next spawn is blocked again, a second \<open>Game over\<close> is emitted.
\<close>

theorem game_over_key_repeat:
  assumes "length (board s) = 220" and "spawn_occupied s"
    and "down_key_timer s \<noteq> None" and "\<not> is_waiting_after_line s"
  shows "\<exists>s1 s2. new_piece s = Inr s1 \<and>
           \<not> is_started s1 \<and> piece_shape (current_piece s1) = NoShape \<and> timer s1 = None \<and>
           statusbar s1 = statusbar s @ [''Game over''] \<and>
           timeout Down_repeat s1 = Inr s2 \<and> s2 \<noteq> s1 \<and>
           (cell_free (board s1) (cur_x s1) (cur_y s1 - 1) \<longrightarrow> cur_y s2 = cur_y s1 - 1) \<and>
           (\<not> cell_free (board s1) (cur_x s1) (cur_y s1 - 1) \<and> cleared_rows (landed s1) = [] \<and>
              spawn_occupied (s1\<lparr>board := landed s1\<rparr>) \<longrightarrow>
              statusbar s2 = statusbar s @ [''Game over'', ''Game over''] \<and>
              board s2 = landed s1)"
proof -
  from spawn_collision_state [OF assms(1,2)] obtain s1 where
    s1: "new_piece s = Inr s1" "\<not> is_started s1" "timer s1 = None"
        "current_piece s1 = set_shape NoShape new_Shape"
        "statusbar s1 = statusbar s @ [''Game over'']" "board s1 = board s"
        "cur_x s1 = 6" "cur_y s1 = 20 \<or> cur_y s1 = 21"
        "down_key_timer s1 = down_key_timer s"
        "is_waiting_after_line s1 = is_waiting_after_line s"
    by blast
  have len: "length (board s1) = 220" using s1(6) assms(1) by simp
  have k: "piece_shape (current_piece s1) = NoShape" using s1(4) by (simp add: set_shape_def)
  have t: "timeout Down_repeat s1 = move_down s1" using s1(9) assms(3) by auto
  have f: "fits (board s1) (current_piece s1) (cur_x s1) (cur_y s1 - 1)
             \<longleftrightarrow> cell_free (board s1) (cur_x s1) (cur_y s1 - 1)"
    using s1(4) by (simp add: fits_empty_piece)
  have "\<exists>s2. move_down s1 = Inr s2 \<and> s2 \<noteq> s1 \<and>
           (cell_free (board s1) (cur_x s1) (cur_y s1 - 1) \<longrightarrow> cur_y s2 = cur_y s1 - 1) \<and>
           (\<not> cell_free (board s1) (cur_x s1) (cur_y s1 - 1) \<and> cleared_rows (landed s1) = [] \<and>
              spawn_occupied (s1\<lparr>board := landed s1\<rparr>) \<longrightarrow>
              statusbar s2 = statusbar s @ [''Game over'', ''Game over''] \<and>
              board s2 = landed s1)"
  proof (cases "cell_free (board s1) (cur_x s1) (cur_y s1 - 1)")
    case True
    let ?s2 = "s1\<lparr>current_piece := current_piece s1, cur_x := cur_x s1,
                   cur_y := cur_y s1 - 1, repaints := repaints s1 + 1\<rparr>"
    have m: "move_down s1 = Inr ?s2"
      using True f by (simp add: move_down_def try_move_eq [OF len] bind_err_def)
    have "repaints ?s2 \<noteq> repaints s1" by simp
    then have "?s2 \<noteq> s1" by metis
    then show ?thesis using m True by simp
  next
    case False
    let ?d = "s1\<lparr>is_landed := True\<rparr>"
    have m: "move_down s1 = finalize_piece ?d"
      using False f
      by (simp add: move_down_def try_move_eq [OF len] bind_err_def piece_dropped_def)
    have ins: "list_all (\<lambda>i. inside (cur_x ?d + shape_x (current_piece ?d) i)
                          (cur_y ?d - shape_y (current_piece ?d) i)) [0..<4]"
      using s1(4,7,8) by (auto simp: inside_def upt4 shape_x_def shape_y_def set_shape_def)
    have lend: "length (board ?d) = 220" using len by simp
    have nw: "\<not> is_waiting_after_line ?d" using s1(10) assms(4) by simp
    from finalize_piece_grows [OF lend ins nw] obtain s2 where
      s2: "finalize_piece ?d = Inr s2"
          "repaints s2 + length (statusbar s2) > repaints ?d + length (statusbar ?d)"
      by blast
    have ne: "s2 \<noteq> s1" using s2(2) by auto
    have ld: "landed ?d = landed s1" by (simp add: landed_def)
    have "statusbar s2 = statusbar s @ [''Game over'', ''Game over''] \<and> board s2 = landed s1"
      if c: "cleared_rows (landed s1) = []" and o: "spawn_occupied (s1\<lparr>board := landed s1\<rparr>)"
    proof -
      let ?s0 = "?d\<lparr>finalize_timer := None, board := landed ?d\<rparr>"
      have l0: "length (board ?s0) = 220" using write_piece_inside [OF lend ins] by simp
      have r: "remove_full_lines ?s0 = Inr ?s0"
        using c ld by (intro remove_full_lines_none [OF l0]) simp
      have o': "spawn_occupied (?s0\<lparr>is_landed := False\<rparr>)"
        using o ld by (simp add: spawn_occupied_def)
      have l0': "length (board (?s0\<lparr>is_landed := False\<rparr>)) = 220" using l0 by simp
      from spawn_collision_state [OF l0' o'] obtain s' where
        s': "new_piece (?s0\<lparr>is_landed := False\<rparr>) = Inr s'"
            "statusbar s' = statusbar (?s0\<lparr>is_landed := False\<rparr>) @ [''Game over'']"
            "board s' = board (?s0\<lparr>is_landed := False\<rparr>)"
        by blast
      have "finalize_piece ?d = Inr (s'\<lparr>hold_locked := False\<rparr>)"
        using nw s'(1) by (simp add: finalize_piece_inside [OF lend ins] r bind_err_def)
      with s2(1) have "s2 = s'\<lparr>hold_locked := False\<rparr>" by simp
      then show ?thesis using s'(2,3) s1(5) ld by simp
    qed
    then show ?thesis using m s2(1) ne False by auto
  qed
  then show ?thesis using s1 k t by auto
qed

lemma cleared_rows_empty:
  assumes "\<forall>i < 22. b ! (i * 10) = NoShape"
  shows "cleared_rows b = []"
proof -
  have "\<not> row_full b i" if "i < 22" for i
  proof
    assume "row_full b i"
    then have "\<forall>j \<in> set [0..<10]. b ! (i * 10 + j) \<noteq> NoShape"
      by (simp add: row_full_def list_all_iff)
    then have "b ! (i * 10 + 0) \<noteq> NoShape" by (rule bspec) simp
    then show False using assms that by simp
  qed
  then show ?thesis by (simp add: cleared_rows_def filter_empty_conv)
qed

lemma pillar_cell:
  "n < 220 \<Longrightarrow> board pillar_Board ! n = (if n mod 10 = 6 then LineShape else NoShape)"
  by (simp add: pillar_Board_def example_Board_def)

lemma pillar_length: "length (board pillar_Board) = 220"
  by (simp add: pillar_Board_def example_Board_def)

lemma pillar_spawn_occupied: "spawn_occupied pillar_Board"
  by (simp add: spawn_occupied_def spawn_cells_def Let_def upt4 pillar_cell set_shape_def
      new_Shape_def shape_x_def shape_y_def min_y_def)
     (simp add: pillar_Board_def example_Board_def)

lemma pillar_new_piece: "new_piece pillar_Board = Inr over_Board"
proof -
  from spawn_collision_state [OF pillar_length pillar_spawn_occupied] obtain s1 where
    s1: "new_piece pillar_Board = Inr s1" by blast
  have "\<not> fits (board pillar_Board) (set_shape ZShape new_Shape) 6 20"
    by (simp add: fits_def cell_free_def upt4 pillar_cell set_shape_def new_Shape_def
        shape_x_def shape_y_def)
  then show ?thesis
    by (simp add: new_piece_def get_next_shape_def py_pop_def bind_err_def Let_def
        try_move_eq pillar_length board_width_def BoardHeight_def game_over_def emit_def
        over_Board_def min_y_def upt4 set_shape_def new_Shape_def)
       (simp add: pillar_Board_def example_Board_def set_shape_def new_Shape_def upt4
        fits_def cell_free_def shape_x_def shape_y_def)
qed

lemma over_landed: "landed over_Board = (board pillar_Board)[206 := NoShape]"
  by (simp add: landed_def over_Board_def upt4 shape_x_def shape_y_def set_shape_def
      new_Shape_def)
     (simp add: pillar_Board_def example_Board_def)

lemma over_blocked_below:
  "\<not> cell_free (board over_Board) (cur_x over_Board) (cur_y over_Board - 1)"
  by (simp add: over_Board_def cell_free_def pillar_cell)
     (simp add: pillar_Board_def example_Board_def)

lemma over_no_full_row: "cleared_rows (landed over_Board) = []"
proof (rule cleared_rows_empty, intro allI impI)
  fix i :: nat assume "i < 22"
  then have "i * 10 < 220" by simp
  then show "landed over_Board ! (i * 10) = NoShape"
    by (simp add: over_landed pillar_length nth_list_update pillar_cell)
qed

lemma over_spawn_occupied: "spawn_occupied (over_Board\<lparr>board := landed over_Board\<rparr>)"
proof -
  have k: "piece_shape (next_piece over_Board) = MirroredLShape"
    by (simp add: over_Board_def set_shape_def)
  have c: "spawn_cells MirroredLShape = [(7, 21), (6, 21), (6, 20), (6, 19)]"
    by (simp add: spawn_cells_def Let_def upt4 set_shape_def new_Shape_def shape_x_def
        shape_y_def min_y_def)
  show ?thesis
    unfolding over_landed
    by (simp add: spawn_occupied_def k c pillar_cell nth_list_update pillar_length)
qed

theorem game_over_key_repeat_witness:
  "length (board pillar_Board) = 220 \<and> spawn_occupied pillar_Board \<and>
   down_key_timer pillar_Board \<noteq> None \<and> \<not> is_waiting_after_line pillar_Board \<and>
   (\<exists>s2. new_piece pillar_Board = Inr over_Board \<and>
      \<not> is_started over_Board \<and> timer over_Board = None \<and>
      statusbar over_Board = [''Game over''] \<and>
      timeout Down_repeat over_Board = Inr s2 \<and> s2 \<noteq> over_Board \<and>
      statusbar s2 = [''Game over'', ''Game over''] \<and>
      board s2 = (board over_Board)[206 := NoShape] \<and>
      board over_Board ! 206 = LineShape)"
proof -
  have h: "down_key_timer pillar_Board \<noteq> None" "\<not> is_waiting_after_line pillar_Board"
    by (simp_all add: pillar_Board_def example_Board_def)
  from game_over_key_repeat [OF pillar_length pillar_spawn_occupied h]
  obtain s1 s2 where
    r: "new_piece pillar_Board = Inr s1" "timeout Down_repeat s1 = Inr s2" "s2 \<noteq> s1"
       "\<not> cell_free (board s1) (cur_x s1) (cur_y s1 - 1) \<and> cleared_rows (landed s1) = [] \<and>
          spawn_occupied (s1\<lparr>board := landed s1\<rparr>) \<longrightarrow>
          statusbar s2 = statusbar pillar_Board @ [''Game over'', ''Game over''] \<and>
          board s2 = landed s1"
    by blast
  have e: "s1 = over_Board" using r(1) pillar_new_piece by simp
  have s: "statusbar s2 = statusbar pillar_Board @ [''Game over'', ''Game over'']"
    "board s2 = landed over_Board"
    using r(4) over_blocked_below over_no_full_row over_spawn_occupied unfolding e by simp_all
  have b: "board over_Board = board pillar_Board" by (simp add: over_Board_def)
  have p: "statusbar pillar_Board = []" by (simp add: pillar_Board_def example_Board_def)
  have o: "\<not> is_started over_Board" "timer over_Board = None"
    "statusbar over_Board = [''Game over'']"
    by (simp_all add: over_Board_def)
  have c: "board over_Board ! 206 = LineShape" by (simp add: b pillar_cell)
  show ?thesis
    using pillar_length pillar_spawn_occupied h pillar_new_piece r(2,3) s o c
    unfolding e over_landed b p by auto
qed

end
